theory Spec2Isabelle
  imports Complex_Main "HOL-Library.Log_Nat" "HOL-Library.Sublist"
begin

section \<open>JavaScript values used by the CreateTask component\<close>

subsection \<open>Strings\<close>

text \<open>
  A JavaScript string is a sequence of UTF-16 code units. A code unit is carried by its
  numeric value, so that every string the text inputs of the form can hold is a value of
  the model; \<open>js\<close> injects an ASCII literal.
\<close>

type_synonym jsstring = "nat list"

definition js :: "string \<Rightarrow> jsstring" where
  "js s = map of_char s"

text \<open>
  \<open>WhiteSpace\<close> and \<open>LineTerminator\<close> of ECMAScript: TAB, LF, VT, FF, CR, SP, NBSP,
  U+1680, U+2000 to U+200A, U+2028, U+2029, U+202F, U+205F, U+3000 and U+FEFF.
\<close>

definition isWhiteSpace :: "nat \<Rightarrow> bool" where
  "isWhiteSpace c \<longleftrightarrow>
     (9 \<le> c \<and> c \<le> 13) \<or> c = 32 \<or> c = 160 \<or> c = 5760 \<or> (8192 \<le> c \<and> c \<le> 8202) \<or>
     c = 8232 \<or> c = 8233 \<or> c = 8239 \<or> c = 8287 \<or> c = 12288 \<or> c = 65279"

definition trimStart :: "jsstring \<Rightarrow> jsstring" where
  "trimStart s = dropWhile isWhiteSpace s"

definition trim :: "jsstring \<Rightarrow> jsstring" where
  "trim s = rev (dropWhile isWhiteSpace (rev (dropWhile isWhiteSpace s)))"

text \<open>
  \<open>String.prototype.split\<close> with a separator of one code unit: the pieces between the
  occurrences of the separator, empty pieces included; the result always has a first
  element (\<open>"".split(",")\<close> is \<open>[""]\<close>).
\<close>

fun splitOn :: "nat \<Rightarrow> jsstring \<Rightarrow> jsstring list" where
  "splitOn c [] = [[]]"
| "splitOn c (x # xs) =
     (if x = c then [] # splitOn c xs
      else (case splitOn c xs of [] \<Rightarrow> [[x]] | p # ps \<Rightarrow> (x # p) # ps))"

text \<open>
  Array destructuring \<open>const [a, b] = arr\<close>: the first two elements, \<open>undefined\<close>
  (here \<open>None\<close>) where the array is too short.
\<close>

fun destructure2 :: "'a list \<Rightarrow> 'a option \<times> 'a option" where
  "destructure2 [] = (None, None)"
| "destructure2 [a] = (Some a, None)"
| "destructure2 (a # b # _) = (Some a, Some b)"

text \<open>\<open>ToString\<close> of a string or \<open>undefined\<close>, as applied by \<open>parseInt\<close> to its argument.\<close>

definition toString :: "jsstring option \<Rightarrow> jsstring" where
  "toString v = (case v of None \<Rightarrow> js ''undefined'' | Some s \<Rightarrow> s)"

subsection \<open>Numbers\<close>

text \<open>
  A Number is an IEEE 754 binary64 value. A finite one is carried by its exact rational
  value; negative zero is identified with zero, which the component cannot tell apart
  (it only compares, adds and stores numbers).
\<close>

datatype number = NaN | Fin rat | PosInf | NegInf

definition pow2 :: "int \<Rightarrow> rat" where
  "pow2 k = (if 0 \<le> k then 2 ^ nat k else 1 / 2 ^ nat (- k))"

definition pow10 :: "int \<Rightarrow> rat" where
  "pow10 k = (if 0 \<le> k then 10 ^ nat k else 1 / 10 ^ nat (- k))"

text \<open>Rounding to the nearest integer, a tie going to the even neighbour.\<close>

definition roundHalfEven :: "rat \<Rightarrow> int" where
  "roundHalfEven q =
     (let f = \<lfloor>q\<rfloor>; r = q - of_int f
      in if r < 1 / 2 then f else if 1 / 2 < r then f + 1 else if even f then f else f + 1)"

text \<open>The binary exponent \<open>e\<close> of a positive rational: \<open>2^e \<le> q < 2^(e+1)\<close>.\<close>

definition ilog2 :: "rat \<Rightarrow> int" where
  "ilog2 q =
     (let k = bitlen (fst (quotient_of q)) - bitlen (snd (quotient_of q))
      in if pow2 k \<le> q then k else k - 1)"

text \<open>
  The Number value for a mathematical value: the nearest binary64 value (53 significant
  bits, least exponent \<open>-1074\<close>), ties to even, and infinity from \<open>2^1024\<close> on.
\<close>

definition toNumberPos :: "rat \<Rightarrow> number" where
  "toNumberPos q =
     (let p = max (ilog2 q - 52) (- 1074);
          v = of_int (roundHalfEven (q / pow2 p)) * pow2 p
      in if 2 ^ 1024 \<le> v then PosInf else Fin v)"

definition numNeg :: "number \<Rightarrow> number" where
  "numNeg x = (case x of NaN \<Rightarrow> NaN | Fin q \<Rightarrow> Fin (- q) | PosInf \<Rightarrow> NegInf | NegInf \<Rightarrow> PosInf)"

definition toNumber :: "rat \<Rightarrow> number" where
  "toNumber q =
     (if q = 0 then Fin 0 else if 0 < q then toNumberPos q else numNeg (toNumberPos (- q)))"

definition isNaN :: "number \<Rightarrow> bool" where
  "isNaN x \<longleftrightarrow> x = NaN"

text \<open>The operators \<open><=\<close>, \<open>>\<close> and \<open>+\<close> on Numbers; a comparison with NaN is false.\<close>

fun numLe :: "number \<Rightarrow> number \<Rightarrow> bool" where
  "numLe NaN _ = False"
| "numLe _ NaN = False"
| "numLe NegInf _ = True"
| "numLe _ PosInf = True"
| "numLe PosInf _ = False"
| "numLe _ NegInf = False"
| "numLe (Fin a) (Fin b) = (a \<le> b)"

fun numGt :: "number \<Rightarrow> number \<Rightarrow> bool" where
  "numGt NaN _ = False"
| "numGt _ NaN = False"
| "numGt PosInf PosInf = False"
| "numGt PosInf _ = True"
| "numGt _ PosInf = False"
| "numGt NegInf _ = False"
| "numGt _ NegInf = True"
| "numGt (Fin a) (Fin b) = (b < a)"

fun numAdd :: "number \<Rightarrow> number \<Rightarrow> number" where
  "numAdd NaN _ = NaN"
| "numAdd _ NaN = NaN"
| "numAdd PosInf NegInf = NaN"
| "numAdd NegInf PosInf = NaN"
| "numAdd PosInf _ = PosInf"
| "numAdd _ PosInf = PosInf"
| "numAdd NegInf _ = NegInf"
| "numAdd _ NegInf = NegInf"
| "numAdd (Fin a) (Fin b) = toNumber (a + b)"

subsection \<open>parseInt and parseFloat\<close>

text \<open>
  The value of a code unit as a digit: \<open>0\<close> to \<open>9\<close>, then the letters of either case
  from ten on.
\<close>

definition digitVal :: "nat \<Rightarrow> nat option" where
  "digitVal c =
     (if 48 \<le> c \<and> c \<le> 57 then Some (c - 48)
      else if 97 \<le> c \<and> c \<le> 122 then Some (c - 87)
      else if 65 \<le> c \<and> c \<le> 90 then Some (c - 55)
      else None)"

definition isDigit :: "nat \<Rightarrow> nat \<Rightarrow> bool" where
  "isDigit R c = (case digitVal c of None \<Rightarrow> False | Some d \<Rightarrow> d < R)"

definition digitsVal :: "nat \<Rightarrow> jsstring \<Rightarrow> nat" where
  "digitsVal R ds = foldl (\<lambda>a c. case digitVal c of None \<Rightarrow> a | Some d \<Rightarrow> a * R + d) 0 ds"

text \<open>An optional leading sign: the sign and the rest of the string.\<close>

definition stripSign :: "jsstring \<Rightarrow> int \<times> jsstring" where
  "stripSign s =
     (case s of
        [] \<Rightarrow> (1, [])
      | c # t \<Rightarrow> if c = 45 then (- 1, t) else if c = 43 then (1, t) else (1, s))"

text \<open>
  \<open>parseInt(string)\<close> with no radix: leading white space is skipped, then a sign, then
  \<open>0x\<close> or \<open>0X\<close> selects radix 16; the longest run of digits of the radix is the value,
  and no digit at all gives NaN. The value is rounded to a Number exactly.
\<close>

definition parseInt :: "jsstring \<Rightarrow> number" where
  "parseInt s =
     (let (sign, s1) = stripSign (trimStart s);
          hex = (take 2 s1 = js ''0x'' \<or> take 2 s1 = js ''0X'');
          R = (if hex then 16 else 10);
          s2 = (if hex then drop 2 s1 else s1);
          z = takeWhile (isDigit R) s2
      in if z = [] then NaN else toNumber (of_int (sign * int (digitsVal R z))))"

text \<open>
  \<open>parseFloat(string)\<close>: leading white space is skipped, and the longest prefix that is
  a \<open>StrDecimalLiteral\<close> is the value: a sign, then \<open>Infinity\<close> or decimal digits with
  an optional fraction and an optional exponent (taken only when it has a digit). No
  such prefix gives NaN.
\<close>

definition exponentPart :: "jsstring \<Rightarrow> int" where
  "exponentPart r =
     (case r of
        [] \<Rightarrow> 0
      | c # t \<Rightarrow>
          if c = 101 \<or> c = 69 then
            (let (es, t1) = stripSign t; ds = takeWhile (isDigit 10) t1
             in if ds = [] then 0 else es * int (digitsVal 10 ds))
          else 0)"

definition parseFloat :: "jsstring \<Rightarrow> number" where
  "parseFloat s =
     (let (sign, s1) = stripSign (trimStart s)
      in if prefix (js ''Infinity'') s1 then (if sign < 0 then NegInf else PosInf)
         else
           (let ip = takeWhile (isDigit 10) s1;
                r1 = dropWhile (isDigit 10) s1;
                dot = (r1 \<noteq> [] \<and> hd r1 = 46 \<and> (ip \<noteq> [] \<or> takeWhile (isDigit 10) (tl r1) \<noteq> []));
                fp = (if dot then takeWhile (isDigit 10) (tl r1) else []);
                r2 = (if dot then dropWhile (isDigit 10) (tl r1) else r1)
            in if ip = [] \<and> fp = [] then NaN
               else toNumber (of_int sign * of_nat (digitsVal 10 (ip @ fp))
                                * pow10 (exponentPart r2 - int (length fp)))))"

section \<open>The CreateTask component\<close>

datatype error = TypeError

subsection \<open>parseValues\<close>

text \<open>
  The loop \<open>for (let i = start; i <= end; i += step) result.push(i)\<close>. It need not
  end, so not returning is the value \<open>None\<close>.
\<close>

partial_function (option) rangeLoop ::
  "number \<Rightarrow> number \<Rightarrow> number \<Rightarrow> number list \<Rightarrow> number list option" where
  "rangeLoop i endv step result =
     (if numLe i endv then rangeLoop (numAdd i step) endv step (result @ [i])
      else Some result)"

declare rangeLoop.simps [code]

text \<open>
  One turn of \<open>for (const part of parts)\<close>, from the array built so far to the array
  after the part. \<open>range.split\<close> on \<open>undefined\<close> would raise a TypeError.
\<close>

definition parsePart :: "jsstring \<Rightarrow> number list \<Rightarrow> (error + number list) option" where
  "parsePart part result =
     (if 45 \<in> set part then
        (let (range, stepStr) = destructure2 (splitOn 58 part)
         in case range of
              None \<Rightarrow> Some (Inl TypeError)
            | Some rg \<Rightarrow>
                (let (startStr, endStr) = destructure2 (splitOn 45 rg);
                     start = parseInt (toString startStr);
                     endv = parseInt (toString endStr);
                     step = (if stepStr \<noteq> None \<and> stepStr \<noteq> Some [] then parseInt (toString stepStr)
                             else Fin 1)
                 in if \<not> isNaN start \<and> \<not> isNaN endv \<and> \<not> isNaN step \<and> numGt step (Fin 0)
                    then map_option Inr (rangeLoop start endv step result)
                    else Some (Inr result)))
      else
        (let val = parseFloat part
         in if \<not> isNaN val then Some (Inr (result @ [val])) else Some (Inr result)))"

fun parseParts :: "jsstring list \<Rightarrow> number list \<Rightarrow> (error + number list) option" where
  "parseParts [] result = Some (Inr result)"
| "parseParts (part # parts) result =
     (case parsePart part result of
        None \<Rightarrow> None
      | Some (Inl e) \<Rightarrow> Some (Inl e)
      | Some (Inr r) \<Rightarrow> parseParts parts r)"

definition parseValues :: "jsstring \<Rightarrow> (error + number list) option" where
  "parseValues input = parseParts (map trim (splitOn 44 input)) []"

subsection \<open>cartesianProduct\<close>

text \<open>
  \<open>arrays.reduce((acc, arr) => acc.flatMap(x => arr.map(y => [...x, y])), [[]])\<close>,
  after the test for no array at all.
\<close>

definition cartesianProduct :: "'a list list \<Rightarrow> 'a list list" where
  "cartesianProduct arrays =
     (if length arrays = 0 then [[]]
      else foldl (\<lambda>acc arr. concat (map (\<lambda>x. map (\<lambda>y. x @ [y]) arr) acc)) [[]] arrays)"

subsection \<open>generateParams\<close>

text \<open>The state of the component: its \<open>useState\<close> cells.\<close>

record ParamConfig =
  enabled :: bool
  "values" :: jsstring

text \<open>An element of \<open>CreateTaskParams["params"]\<close>: one override triple.\<close>

record Param =
  node_id :: jsstring
  field :: string
  "value" :: number

text \<open>
  The messages \<open>setError\<close> is called with: the four fixed texts of the component (a
  missing task name, no enabled parameter with a valid value, no workflow, a failed
  creation), the text of an \<open>Error\<close> or of the server's answer, and the fixed text for
  anything else that was thrown.
\<close>

datatype message =
  EnterTaskName | NoValidParams | NoWorkflow | CreateFailed | Message jsstring | UnknownError

record CreateTaskState =
  name :: jsstring
  nodeId :: jsstring
  submitting :: bool
  error :: "message option"
  seedConfig :: ParamConfig
  stepsConfig :: ParamConfig
  cfgConfig :: ParamConfig

text \<open>The state at mount: the arguments of the \<open>useState\<close> calls.\<close>

definition initialState :: CreateTaskState where
  "initialState =
     \<lparr>name = [], nodeId = js ''3'', submitting = False, error = None,
      seedConfig = \<lparr>enabled = True, values = js ''1-5''\<rparr>,
      stepsConfig = \<lparr>enabled = False, values = js ''20,30,40''\<rparr>,
      cfgConfig = \<lparr>enabled = False, values = js ''7,8,9''\<rparr>\<rparr>"

text \<open>An element of \<open>paramArrays\<close>: the object \<open>{ field, values }\<close>, as a pair.\<close>

type_synonym paramArray = "string \<times> number list"

text \<open>
  Each of the three blocks \<open>if (c.enabled) { const values = parseValues(c.values);
  if (values.length > 0) paramArrays.push({ field, values }) }\<close>.
\<close>

definition pushParam ::
  "string \<Rightarrow> ParamConfig \<Rightarrow> paramArray list \<Rightarrow> (error + paramArray list) option" where
  "pushParam fld c paramArrays =
     (if enabled c then
        (case parseValues (values c) of
           None \<Rightarrow> None
         | Some (Inl e) \<Rightarrow> Some (Inl e)
         | Some (Inr vs) \<Rightarrow>
             Some (Inr (if length vs > 0 then paramArrays @ [(fld, vs)] else paramArrays)))
      else Some (Inr paramArrays))"

text \<open>
  \<open>combo.forEach((value, index) => params.push({ node_id: nodeId, field:
  paramArrays[index].field, value }))\<close>, from position \<open>index\<close> on; reading
  \<open>.field\<close> of an element that is not there raises a TypeError.
\<close>

fun comboParams ::
  "jsstring \<Rightarrow> paramArray list \<Rightarrow> nat \<Rightarrow> number list \<Rightarrow> error + Param list" where
  "comboParams nid paramArrays index [] = Inr []"
| "comboParams nid paramArrays index (v # combo) =
     (if index < length paramArrays then
        (case comboParams nid paramArrays (Suc index) combo of
           Inl e \<Rightarrow> Inl e
         | Inr params \<Rightarrow>
             Inr (\<lparr>node_id = nid, field = fst (paramArrays ! index), value = v\<rparr> # params))
      else Inl TypeError)"

text \<open>\<open>combinations.map(...)\<close> with a callback that may raise.\<close>

fun mapParams ::
  "jsstring \<Rightarrow> paramArray list \<Rightarrow> number list list \<Rightarrow> error + Param list list" where
  "mapParams nid paramArrays [] = Inr []"
| "mapParams nid paramArrays (combo # combinations) =
     (case comboParams nid paramArrays 0 combo of
        Inl e \<Rightarrow> Inl e
      | Inr params \<Rightarrow>
          (case mapParams nid paramArrays combinations of
             Inl e \<Rightarrow> Inl e
           | Inr rest \<Rightarrow> Inr (params # rest)))"

definition generateParams :: "CreateTaskState \<Rightarrow> (error + Param list list) option" where
  "generateParams st =
     (case pushParam ''seed'' (seedConfig st) [] of
        None \<Rightarrow> None
      | Some (Inl e) \<Rightarrow> Some (Inl e)
      | Some (Inr pa1) \<Rightarrow>
     (case pushParam ''steps'' (stepsConfig st) pa1 of
        None \<Rightarrow> None
      | Some (Inl e) \<Rightarrow> Some (Inl e)
      | Some (Inr pa2) \<Rightarrow>
     (case pushParam ''cfg'' (cfgConfig st) pa2 of
        None \<Rightarrow> None
      | Some (Inl e) \<Rightarrow> Some (Inl e)
      | Some (Inr paramArrays) \<Rightarrow>
          if length paramArrays = 0 then Some (Inr [])
          else Some (mapParams (nodeId st) paramArrays (cartesianProduct (map snd paramArrays))))))"

subsection \<open>handleSubmit\<close>

text \<open>
  The workflow is an object the component never looks into; only \<open>Object.keys\<close> is
  taken of it, so it is carried as the list of its keys with their values as text.
\<close>

type_synonym workflow = "(jsstring \<times> jsstring) list"

record CreateTaskParams =
  task_name :: jsstring
  task_workflow :: workflow
  task_params :: "Param list list"

text \<open>
  What the page and the server answer during one submission: \<open>window.comfyApp\<close> with
  its \<open>graph\<close> and the outcome of \<open>graphToPrompt()\<close>, and the outcome of
  \<open>createTask\<close>. A promise either resolves or rejects; the value thrown is an
  \<open>Error\<close> with its message, or something else.
\<close>

datatype thrown = ErrorObject jsstring | OtherValue

datatype 'a awaited = Resolved 'a | Rejected thrown

record ComfyApp =
  graph :: bool
  graphToPrompt :: "workflow option awaited"

record ApiResponse =
  success :: bool
  response_error :: "jsstring option"

record Environment =
  comfyApp :: "ComfyApp option"
  createTaskResult :: "ApiResponse awaited"

text \<open>
  \<open>getWorkflow\<close>: \<open>null\<close> (here \<open>None\<close>) when the application or its graph is
  missing, when \<open>graphToPrompt\<close> throws, and when the prompt has no output or an
  output without keys. Its alerts are not part of the state.
\<close>

definition getWorkflow :: "Environment \<Rightarrow> workflow option" where
  "getWorkflow env =
     (case comfyApp env of
        None \<Rightarrow> None
      | Some app \<Rightarrow>
          if \<not> graph app then None
          else (case graphToPrompt app of
                  Rejected _ \<Rightarrow> None
                | Resolved None \<Rightarrow> None
                | Resolved (Some out) \<Rightarrow> if length out = 0 then None else Some out))"

text \<open>
  \<open>handleSubmit\<close>: the state after the handler and the arguments of every call of
  \<open>createTask\<close> it made. \<open>generateParams\<close> is called before the \<open>try\<close> block, so
  what it raises leaves the handler; \<open>finally\<close> resets \<open>submitting\<close> on every path
  through the block. The alert, the log line and \<open>onSuccess\<close> are not part of the state.
\<close>

definition handleSubmit ::
  "Environment \<Rightarrow> CreateTaskState \<Rightarrow> (error + CreateTaskState \<times> CreateTaskParams list) option" where
  "handleSubmit env st =
     (if trim (name st) = [] then Some (Inr (st\<lparr>error := Some EnterTaskName\<rparr>, []))
      else
        (case generateParams st of
           None \<Rightarrow> None
         | Some (Inl e) \<Rightarrow> Some (Inl e)
         | Some (Inr paramsList) \<Rightarrow>
             if length paramsList = 0 then Some (Inr (st\<lparr>error := Some NoValidParams\<rparr>, []))
             else
               (let st1 = st\<lparr>submitting := True, error := None\<rparr>
                in case getWorkflow env of
                     None \<Rightarrow> Some (Inr (st1\<lparr>error := Some NoWorkflow, submitting := False\<rparr>, []))
                   | Some wflow \<Rightarrow>
                       if length wflow = 0
                       then Some (Inr (st1\<lparr>error := Some NoWorkflow, submitting := False\<rparr>, []))
                       else
                         (let call = \<lparr>task_name = trim (name st), task_workflow = wflow,
                                       task_params = paramsList\<rparr>
                          in case createTaskResult env of
                               Resolved result \<Rightarrow>
                                 if success result
                                 then Some (Inr (st1\<lparr>name := [], submitting := False\<rparr>, [call]))
                                 else Some (Inr (st1\<lparr>error := Some (case response_error result of
                                                                      None \<Rightarrow> CreateFailed
                                                                    | Some [] \<Rightarrow> CreateFailed
                                                                    | Some m \<Rightarrow> Message m),
                                                        submitting := False\<rparr>, [call]))
                             | Rejected (ErrorObject m) \<Rightarrow>
                                 Some (Inr (st1\<lparr>error := Some (Message m), submitting := False\<rparr>, [call]))
                             | Rejected OtherValue \<Rightarrow>
                                 Some (Inr (st1\<lparr>error := Some UnknownError, submitting := False\<rparr>, [call]))))))"

section \<open>The scheduler and the task store\<close>

text \<open>
  Modelled from the spec: the task store and the scheduler of sections 3, 4.2 and 4.3.
  Their code (the service's scheduler and database modules) is not among the sources,
  which hold the frontend only.
\<close>

text \<open>Modelled from the spec: the status of a task (section 3).\<close>

datatype status = Pending | Running | Completed | Failed

text \<open>
  Modelled from the spec: the task record of section 3, without its two timestamps,
  which no operation below reads.
\<close>

record Task =
  t_id :: nat
  t_name :: jsstring
  t_status :: status
  t_template :: workflow
  t_combinations :: "Param list list"
  t_total_count :: nat
  t_completed_count :: nat

text \<open>Modelled from the spec: the stored tasks, in creation order.\<close>

type_synonym store = "Task list"

text \<open>
  Modelled from the spec: \<open>claim_next_pending\<close> (section 4.2) turns the first pending
  task, in creation order, to running and returns it, or returns none.
\<close>

fun claim_next_pending :: "store \<Rightarrow> (Task \<times> store) option" where
  "claim_next_pending [] = None"
| "claim_next_pending (t # ts) =
     (if t_status t = Pending then Some (t\<lparr>t_status := Running\<rparr>, t\<lparr>t_status := Running\<rparr> # ts)
      else (case claim_next_pending ts of
              None \<Rightarrow> None
            | Some (c, ts') \<Rightarrow> Some (c, t # ts')))"

text \<open>
  Modelled from the spec: \<open>record_progress\<close> and \<open>finish\<close> (section 4.2); on an
  identifier that was deleted they change nothing (section 5).
\<close>

definition record_progress :: "nat \<Rightarrow> nat \<Rightarrow> store \<Rightarrow> store" where
  "record_progress i increment s =
     map (\<lambda>t. if t_id t = i then t\<lparr>t_completed_count := t_completed_count t + increment\<rparr> else t) s"

definition finish :: "nat \<Rightarrow> status \<Rightarrow> store \<Rightarrow> store" where
  "finish i final_status s = map (\<lambda>t. if t_id t = i then t\<lparr>t_status := final_status\<rparr> else t) s"

text \<open>
  Modelled from the spec: the Execution Engine Adapter (section 6) takes a job
  description, here the template with the overrides to merge into it, and signals
  success or failure for it.
\<close>

type_synonym job = "workflow \<times> Param list"

datatype signal = Success | Failure

text \<open>
  Modelled from the spec: what happens at the adapter, in order of time: the submission
  of combination \<open>k\<close> of a task, and the signal that ends it.
\<close>

datatype event = Submitted nat nat | Signalled nat nat signal

text \<open>
  Modelled from the spec: the worker on a claimed task (section 4.3). It takes the
  combinations in order, submits one and waits for its signal; on success it records
  progress and goes on, on failure it marks the task failed and leaves the rest; after
  the last success it marks the task completed.
\<close>

fun runCombinations ::
  "(job \<Rightarrow> signal) \<Rightarrow> Task \<Rightarrow> nat \<Rightarrow> Param list list \<Rightarrow> store \<Rightarrow> event list \<times> store" where
  "runCombinations engine t k [] s = ([], finish (t_id t) Completed s)"
| "runCombinations engine t k (c # cs) s =
     (case engine (t_template t, c) of
        Success \<Rightarrow>
          (let (es, s') = runCombinations engine t (Suc k) cs (record_progress (t_id t) 1 s)
           in (Submitted (t_id t) k # Signalled (t_id t) k Success # es, s'))
      | Failure \<Rightarrow>
          ([Submitted (t_id t) k, Signalled (t_id t) k Failure], finish (t_id t) Failed s))"

text \<open>
  Modelled from the spec: one cycle of the worker's loop (section 4.3): claim the next
  pending task and process it, or idle.
\<close>

definition cycle :: "(job \<Rightarrow> signal) \<Rightarrow> store \<Rightarrow> event list \<times> store" where
  "cycle engine s =
     (case claim_next_pending s of
        None \<Rightarrow> ([], s)
      | Some (t, s') \<Rightarrow> runCombinations engine t 0 (t_combinations t) s')"

text \<open>
  Modelled from the spec: the single worker over its cycles. Before each cycle the API
  layer may have changed the store (tasks created, deleted or set to run again), in any
  way at all.
\<close>

fun worker :: "(job \<Rightarrow> signal) \<Rightarrow> (store \<Rightarrow> store) list \<Rightarrow> store \<Rightarrow> event list \<times> store" where
  "worker engine [] s = ([], s)"
| "worker engine (api # apis) s =
     (let (es, s') = cycle engine (api s); (es', s'') = worker engine apis s'
      in (es @ es', s''))"

text \<open>
  Modelled from the spec: the number of submissions outstanding after a run of events,
  from \<open>n\<close> outstanding before it.
\<close>

fun outstanding :: "nat \<Rightarrow> event list \<Rightarrow> nat" where
  "outstanding n [] = n"
| "outstanding n (Submitted _ _ # es) = outstanding (Suc n) es"
| "outstanding n (Signalled _ _ _ # es) = outstanding (n - 1) es"

text \<open>A run of events in which every submission is followed at once by its own signal.\<close>

fun paired :: "event list \<Rightarrow> bool" where
  "paired [] = True"
| "paired (Submitted i k # Signalled j l r # es) = (i = j \<and> k = l \<and> paired es)"
| "paired _ = False"

section \<open>Vocabulary of the specification\<close>

text \<open>A Number that is zero, positive or positive infinity.\<close>

definition nonNegative :: "number \<Rightarrow> bool" where
  "nonNegative x = (case x of NaN \<Rightarrow> False | Fin q \<Rightarrow> 0 \<le> q | PosInf \<Rightarrow> True | NegInf \<Rightarrow> False)"

text \<open>
  A leading numeric prefix, as C10 names it: after white space and a sign, the text
  begins with a decimal digit, with a dot and a decimal digit, or with \<open>Infinity\<close>.
\<close>

definition decimalDigit :: "nat \<Rightarrow> bool" where
  "decimalDigit c \<longleftrightarrow> 48 \<le> c \<and> c \<le> 57"

definition numericPrefix :: "jsstring \<Rightarrow> bool" where
  "numericPrefix s =
     (let t = snd (stripSign (trimStart s))
      in prefix (js ''Infinity'') t \<or>
         (case t of
            [] \<Rightarrow> False
          | c # u \<Rightarrow>
              decimalDigit c \<or> (c = 46 \<and> (case u of [] \<Rightarrow> False | d # _ \<Rightarrow> decimalDigit d))))"














text \<open>
  The dimensions in the order the component declares them, and the value list of a
  dimension: the parsed values when it is enabled, none when it is disabled.
\<close>

definition dimensions :: "CreateTaskState \<Rightarrow> (string \<times> ParamConfig) list" where
  "dimensions st = [(''seed'', seedConfig st), (''steps'', stepsConfig st), (''cfg'', cfgConfig st)]"

definition valueList :: "ParamConfig \<Rightarrow> number list" where
  "valueList c =
     (if enabled c then (case parseValues (values c) of Some (Inr vs) \<Rightarrow> vs | _ \<Rightarrow> []) else [])"

text \<open>
  The participating dimensions: those with at least one value, in declared order, each
  with its value list.
\<close>

definition participating :: "CreateTaskState \<Rightarrow> paramArray list" where
  "participating st =
     filter (\<lambda>(f, vs). vs \<noteq> []) (map (\<lambda>(f, c). (f, valueList c)) (dimensions st))"

text \<open>A dimension has a parsed value list: it is disabled, or the parser returns on it.\<close>

definition parsed :: "ParamConfig \<Rightarrow> bool" where
  "parsed c \<longleftrightarrow> (enabled c \<longrightarrow> parseValues (values c) \<noteq> None)"

text \<open>A dimension that does not participate: disabled, or parsed to no value at all.\<close>

definition excluded :: "ParamConfig \<Rightarrow> bool" where
  "excluded c \<longleftrightarrow> \<not> enabled c \<or> parseValues (values c) = Some (Inr [])"

text \<open>
  The override set of a combination: one triple per participating dimension, in order,
  all with the same node.
\<close>

definition overrides :: "jsstring \<Rightarrow> paramArray list \<Rightarrow> number list \<Rightarrow> Param list" where
  "overrides nid pas combo =
     map (\<lambda>(pa, v). \<lparr>node_id = nid, field = fst pa, value = v\<rparr>) (zip pas combo)"

text \<open>
  A segment whose range, if it is one, ends below \<open>2^53\<close>: the end bound the parser
  cuts out of it is not read as a Number from \<open>2^53\<close> on.
\<close>

definition boundedRange :: "jsstring \<Rightarrow> bool" where
  "boundedRange part \<longleftrightarrow>
     (case destructure2 (splitOn 58 part) of
        (None, _) \<Rightarrow> True
      | (Some rg, _) \<Rightarrow>
          (case parseInt (toString (snd (destructure2 (splitOn 45 rg)))) of
             Fin e \<Rightarrow> e < 2 ^ 53
           | PosInf \<Rightarrow> False
           | _ \<Rightarrow> True))"

section \<open>Properties of the number model\<close>

subsection \<open>Powers of two and the binary exponent\<close>

lemma pow2_pos: "0 < pow2 k"
  by (simp add: pow2_def)

lemma pow2_nat: "pow2 (int n) = 2 ^ n"
  by (simp add: pow2_def)

lemma pow2_add: "pow2 (a + b) = pow2 a * pow2 b"
proof -
  have "pow2 k = 2 powi k" for k
    by (simp add: pow2_def power_int_def power_one_over)
  then show ?thesis by (simp add: power_int_add)
qed

lemma pow2_mono: "a \<le> b \<Longrightarrow> pow2 a \<le> pow2 b"
proof -
  assume "a \<le> b"
  then obtain n where "b = a + int n" by (metis zle_iff_zadd)
  then have "pow2 b = pow2 a * 2 ^ n" by (simp add: pow2_add pow2_nat)
  moreover have "(1::rat) \<le> 2 ^ n" by simp
  ultimately show ?thesis using pow2_pos [of a]
    by (metis mult.right_neutral mult_le_cancel_left_pos)
qed

lemma pow2_less_imp: "pow2 a < pow2 b \<Longrightarrow> a < b"
  using pow2_mono [of b a] by (cases "a < b") auto

lemma roundHalfEven_of_int: "roundHalfEven (of_int n) = n"
  by (simp add: roundHalfEven_def)

lemma roundHalfEven_nonneg: "0 \<le> q \<Longrightarrow> 0 \<le> roundHalfEven q"
  by (auto simp: roundHalfEven_def Let_def)

lemma quotient_of_pos:
  assumes "0 < q"
  shows "0 < fst (quotient_of q)" "0 < snd (quotient_of q)"
    "q = of_int (fst (quotient_of q)) / of_int (snd (quotient_of q))"
proof -
  obtain a b where ab: "quotient_of q = (a, b)" by (cases "quotient_of q")
  then have b: "0 < b" by (rule quotient_of_denom_pos)
  have q: "q = of_int a / of_int b" using ab by (rule quotient_of_div)
  with assms b have "0 < a" by (simp add: zero_less_divide_iff)
  with b q ab show "0 < fst (quotient_of q)" "0 < snd (quotient_of q)"
    "q = of_int (fst (quotient_of q)) / of_int (snd (quotient_of q))" by simp_all
qed

lemma ilog2_lower:
  assumes "0 < q"
  shows "pow2 (ilog2 q) \<le> q"
proof -
  define a where "a = fst (quotient_of q)"
  define b where "b = snd (quotient_of q)"
  have a: "0 < a" and b: "0 < b" and q: "q = of_int a / of_int b"
    using quotient_of_pos [OF assms] by (simp_all add: a_def b_def)
  define k where "k = bitlen a - bitlen b"
  show ?thesis
  proof (cases "pow2 k \<le> q")
    case True
    then show ?thesis by (simp add: ilog2_def Let_def k_def a_def b_def)
  next
    case False
    have la: "1 \<le> bitlen a" and lb: "1 \<le> bitlen b"
      using a b bitlen_eq_zero_iff [of a] bitlen_eq_zero_iff [of b] bitlen_nonneg [of a] bitlen_nonneg [of b]
      by linarith+
    have "(2::int) ^ nat (bitlen a - 1) \<le> a" using bitlen_bounds [OF a] by simp
    then have "(of_int ((2::int) ^ nat (bitlen a - 1)) :: rat) \<le> of_int a" by (simp only: of_int_le_iff)
    then have A: "pow2 (bitlen a - 1) \<le> of_int a" using la by (simp add: pow2_def)
    have "b < 2 ^ nat (bitlen b)" using bitlen_bounds [OF b] by simp
    then have "(of_int b :: rat) < of_int ((2::int) ^ nat (bitlen b))" by (simp only: of_int_less_iff)
    then have B: "of_int b < pow2 (bitlen b)" using lb by (simp add: pow2_def)
    have "pow2 (k - 1) * of_int b \<le> pow2 (k - 1) * pow2 (bitlen b)"
      using B pow2_pos [of "k - 1"] by simp
    also have "\<dots> = pow2 (bitlen a - 1)"
      by (simp add: pow2_add [symmetric] k_def)
    also have "\<dots> \<le> of_int a" by (rule A)
    finally have "pow2 (k - 1) \<le> q" using b by (simp add: q pos_le_divide_eq)
    with False show ?thesis by (simp add: ilog2_def Let_def k_def a_def b_def)
  qed
qed

lemma ilog2_upper:
  assumes "0 < q"
  shows "q < pow2 (ilog2 q + 1)"
proof -
  define a where "a = fst (quotient_of q)"
  define b where "b = snd (quotient_of q)"
  have a: "0 < a" and b: "0 < b" and q: "q = of_int a / of_int b"
    using quotient_of_pos [OF assms] by (simp_all add: a_def b_def)
  define k where "k = bitlen a - bitlen b"
  show ?thesis
  proof (cases "pow2 k \<le> q")
    case False
    then show ?thesis by (simp add: ilog2_def Let_def k_def a_def b_def)
  next
    case True
    have la: "1 \<le> bitlen a" and lb: "1 \<le> bitlen b"
      using a b bitlen_eq_zero_iff [of a] bitlen_eq_zero_iff [of b] bitlen_nonneg [of a] bitlen_nonneg [of b]
      by linarith+
    have "a < 2 ^ nat (bitlen a)" using bitlen_bounds [OF a] by simp
    then have "(of_int a :: rat) < of_int ((2::int) ^ nat (bitlen a))" by (simp only: of_int_less_iff)
    then have A: "of_int a < pow2 (bitlen a)" using la by (simp add: pow2_def)
    have "(2::int) ^ nat (bitlen b - 1) \<le> b" using bitlen_bounds [OF b] by simp
    then have "(of_int ((2::int) ^ nat (bitlen b - 1)) :: rat) \<le> of_int b" by (simp only: of_int_le_iff)
    then have B: "pow2 (bitlen b - 1) \<le> of_int b" using lb by (simp add: pow2_def)
    have "of_int a < pow2 (bitlen a)" by (rule A)
    also have "\<dots> = pow2 (k + 1) * pow2 (bitlen b - 1)"
      by (simp add: pow2_add [symmetric] k_def)
    also have "\<dots> \<le> pow2 (k + 1) * of_int b"
      using B pow2_pos [of "k + 1"] by simp
    finally have "q < pow2 (k + 1)" using b by (simp add: q pos_divide_less_eq)
    with True show ?thesis by (simp add: ilog2_def Let_def k_def a_def b_def)
  qed
qed

subsection \<open>Rounding is exact on binary64 values and keeps the sign\<close>

lemma toNumberPos_exact:
  assumes m: "0 < m" "m < 2 ^ 53" and k: "- 1074 \<le> k" "k \<le> 971"
  shows "toNumberPos (of_int m * pow2 k) = Fin (of_int m * pow2 k)"
proof -
  define q where "q = of_int m * pow2 k"
  define p where "p = max (ilog2 q - 52) (- 1074)"
  have qpos: "0 < q" using m pow2_pos [of k] by (simp add: q_def)
  have "(of_int m :: rat) < of_int (2 ^ 53)" using m by (simp only: of_int_less_iff)
  then have "of_int m < pow2 53" by (simp add: pow2_def)
  then have "q < pow2 53 * pow2 k" using pow2_pos [of k] by (simp add: q_def)
  then have qlt: "q < pow2 (53 + k)" by (simp add: pow2_add)
  have "pow2 (ilog2 q) < pow2 (53 + k)" using ilog2_lower [OF qpos] qlt by simp
  then have "ilog2 q < 53 + k" by (rule pow2_less_imp)
  then have pk: "p \<le> k" using k by (simp add: p_def)
  have "pow2 k = pow2 (k - p) * pow2 p" by (simp add: pow2_add [symmetric])
  then have "q / pow2 p = of_int m * pow2 (k - p)"
    using pow2_pos [of p] by (simp add: q_def)
  also have "pow2 (k - p) = of_int (2 ^ nat (k - p))" using pk by (simp add: pow2_def)
  finally have "q / pow2 p = of_int (m * 2 ^ nat (k - p))" by simp
  then have "roundHalfEven (q / pow2 p) = m * 2 ^ nat (k - p)"
    by (simp only: roundHalfEven_of_int)
  then have "of_int (roundHalfEven (q / pow2 p)) * pow2 p = of_int m * (pow2 (k - p) * pow2 p)"
    using pk by (simp add: pow2_def)
  then have v: "of_int (roundHalfEven (q / pow2 p)) * pow2 p = q"
    by (simp add: pow2_add [symmetric] q_def)
  have "pow2 (53 + k) \<le> pow2 1024" using k by (intro pow2_mono) simp
  then have "q < 2 ^ 1024" using qlt by (simp add: pow2_def)
  then show ?thesis
    using v unfolding toNumberPos_def Let_def p_def [symmetric] q_def [symmetric] by simp
qed

lemma toNumber_exact:
  assumes m: "\<bar>m\<bar> < 2 ^ 53" and k: "- 1074 \<le> k" "k \<le> 971"
  shows "toNumber (of_int m * pow2 k) = Fin (of_int m * pow2 k)"
proof -
  consider "m = 0" | "0 < m" | "m < 0" by linarith
  then show ?thesis
  proof cases
    case 1
    then show ?thesis by (simp add: toNumber_def)
  next
    case 2
    then have "0 < of_int m * pow2 k" using pow2_pos [of k] by simp
    moreover have "m < 2 ^ 53" using m by simp
    ultimately show ?thesis using toNumberPos_exact [OF 2 _ k] by (simp add: toNumber_def)
  next
    case 3
    then have neg: "of_int m * pow2 k < 0" using pow2_pos [of k] by (simp add: mult_less_0_iff)
    have "0 < - m" "- m < 2 ^ 53" using 3 m by simp_all
    from toNumberPos_exact [OF this k] neg show ?thesis
      by (simp add: toNumber_def numNeg_def)
  qed
qed

lemma toNumber_int_exact: "\<bar>m\<bar> \<le> 2 ^ 53 \<Longrightarrow> toNumber (of_int m) = Fin (of_int m)"
proof -
  assume a: "\<bar>m\<bar> \<le> 2 ^ 53"
  show ?thesis
  proof (cases "\<bar>m\<bar> < 2 ^ 53")
    case True
    then show ?thesis using toNumber_exact [of m 0] by (simp add: pow2_def)
  next
    case False
    with a have "m = 2 ^ 53 \<or> m = - (2 ^ 53)" by linarith
    then show ?thesis
      using toNumber_exact [of "2 ^ 52" 1] toNumber_exact [of "- (2 ^ 52)" 1]
      by (auto simp: pow2_def)
  qed
qed

lemma toNumber_numeral:
  "numeral n \<le> (2::int) ^ 53 \<Longrightarrow> toNumber (numeral n) = Fin (numeral n)"
  using toNumber_int_exact [of "numeral n"] by simp

lemma toNumber_0: "toNumber 0 = Fin 0"
  by (simp add: toNumber_def)

lemma toNumber_1: "toNumber 1 = Fin 1"
  using toNumber_int_exact [of 1] by simp

lemma toNumberPos_nonneg:
  assumes "0 < q"
  shows "toNumberPos q = PosInf \<or> (\<exists>v. toNumberPos q = Fin v \<and> 0 \<le> v)"
proof -
  have "0 \<le> roundHalfEven (q / pow2 k)" for k
    using assms pow2_pos [of k] by (intro roundHalfEven_nonneg) simp
  then have "0 \<le> of_int (roundHalfEven (q / pow2 k)) * pow2 k" for k
    using pow2_pos [of k] by simp
  then show ?thesis by (simp add: toNumberPos_def Let_def)
qed

lemma toNumber_nonneg:
  "0 \<le> q \<Longrightarrow> toNumber q = PosInf \<or> (\<exists>v. toNumber q = Fin v \<and> 0 \<le> v)"
  using toNumberPos_nonneg [of q] by (auto simp: toNumber_def)

subsection \<open>Evaluating the rounding\<close>

lemma ilog2_unique:
  assumes "pow2 e \<le> q" "q < pow2 (e + 1)"
  shows "ilog2 q = e"
proof -
  have qpos: "0 < q" using assms(1) pow2_pos [of e] by simp
  have "pow2 (ilog2 q) < pow2 (e + 1)" using ilog2_lower [OF qpos] assms(2) by simp
  then have "ilog2 q < e + 1" by (rule pow2_less_imp)
  moreover have "pow2 e < pow2 (ilog2 q + 1)" using ilog2_upper [OF qpos] assms(1) by simp
  then have "e < ilog2 q + 1" by (rule pow2_less_imp)
  ultimately show ?thesis by simp
qed

lemma roundHalfEven_le: "q \<le> of_int n \<Longrightarrow> roundHalfEven q \<le> n"
proof -
  assume a: "q \<le> of_int n"
  show ?thesis
  proof (cases "q = of_int n")
    case True
    then show ?thesis by (simp add: roundHalfEven_of_int)
  next
    case False
    with a have "q < of_int n" by simp
    then have "\<lfloor>q\<rfloor> < n" by (simp add: floor_less_iff)
    then show ?thesis by (simp add: roundHalfEven_def Let_def)
  qed
qed

lemma roundHalfEven_ge: "of_int n \<le> q \<Longrightarrow> n \<le> roundHalfEven q"
proof -
  assume "of_int n \<le> q"
  then have "n \<le> \<lfloor>q\<rfloor>" by (simp add: le_floor_iff)
  then show ?thesis by (simp add: roundHalfEven_def Let_def)
qed

lemma floor_numeral_div:
  "\<lfloor>(numeral a :: rat) / numeral b\<rfloor> = numeral a div numeral b"
  using floor_divide_of_int_eq [of "numeral a" "numeral b", where ?'a = rat] by simp

lemma toNumber_eval:
  assumes "pow2 e \<le> q" "q < pow2 (e + 1)" "- 1075 \<le> e" "e \<le> 1022"
  shows "toNumber q =
    Fin (of_int (roundHalfEven (q / pow2 (max (e - 52) (- 1074)))) * pow2 (max (e - 52) (- 1074)))"
proof -
  define p where "p = max (e - 52) (- 1074)"
  have qpos: "0 < q" using assms(1) pow2_pos [of e] by simp
  have pe: "p \<le> e + 1" using assms(3) by (simp add: p_def)
  have "pow2 (e + 1) = pow2 (e + 1 - p) * pow2 p" by (simp add: pow2_add [symmetric])
  then have "q / pow2 p < pow2 (e + 1 - p)"
    using assms(2) pow2_pos [of p] by (simp add: pos_divide_less_eq)
  also have "pow2 (e + 1 - p) = of_int (2 ^ nat (e + 1 - p))" using pe by (simp add: pow2_def)
  finally have "roundHalfEven (q / pow2 p) \<le> 2 ^ nat (e + 1 - p)"
    by (intro roundHalfEven_le) simp
  then have "(of_int (roundHalfEven (q / pow2 p)) :: rat) \<le> of_int (2 ^ nat (e + 1 - p))"
    by (simp only: of_int_le_iff)
  then have "of_int (roundHalfEven (q / pow2 p)) \<le> pow2 (e + 1 - p)"
    using pe by (simp add: pow2_def)
  then have "of_int (roundHalfEven (q / pow2 p)) * pow2 p \<le> pow2 (e + 1 - p) * pow2 p"
    using pow2_pos [of p] by simp
  also have "\<dots> = pow2 (e + 1)" by (simp add: pow2_add [symmetric])
  also have "\<dots> \<le> pow2 1023" using assms(4) by (intro pow2_mono) simp
  also have "\<dots> < pow2 1024" by (simp add: pow2_def)
  finally have "\<not> 2 ^ 1024 \<le> of_int (roundHalfEven (q / pow2 p)) * pow2 p"
    by (simp add: pow2_def)
  then show ?thesis
    using qpos unfolding toNumber_def toNumberPos_def Let_def ilog2_unique [OF assms(1,2)] p_def
    by simp
qed

lemma toNumber_absorb: "toNumber 9007199254740993 = Fin 9007199254740992"
  using toNumber_eval [of 53 9007199254740993]
  by (simp add: pow2_def roundHalfEven_def Let_def floor_numeral_div)

lemma toNumber_above: "toNumber 9007199254740994 = Fin 9007199254740994"
  using toNumber_exact [of 4503599627370497 1] by (simp add: pow2_def)

subsection \<open>Rounding from \<open>2^53\<close> on\<close>

lemma ilog2_ge_53:
  assumes "2 ^ 53 \<le> q"
  shows "53 \<le> ilog2 q"
proof -
  have qpos: "0 < q" using assms by (simp add: less_le_trans [of 0 "2 ^ 53"])
  have "pow2 53 \<le> q" using assms by (simp add: pow2_def)
  also have "q < pow2 (ilog2 q + 1)" by (rule ilog2_upper [OF qpos])
  finally have "53 < ilog2 q + 1" by (rule pow2_less_imp)
  then show ?thesis by simp
qed

lemma toNumber_large:
  assumes "2 ^ 53 \<le> q"
  shows "toNumber q = PosInf \<or> (\<exists>z. toNumber q = Fin (of_int z) \<and> 2 ^ 53 \<le> z)"
proof -
  define p where "p = max (ilog2 q - 52) (- 1074)"
  define n where "n = roundHalfEven (q / pow2 p)"
  have qpos: "0 < q" using assms by (simp add: less_le_trans [of 0 "2 ^ 53"])
  have e: "53 \<le> ilog2 q" by (rule ilog2_ge_53 [OF assms])
  then have p: "p = ilog2 q - 52" "1 \<le> p" by (simp_all add: p_def)
  have "pow2 (ilog2 q) = pow2 52 * pow2 p" by (simp add: p pow2_add [symmetric])
  then have "pow2 52 * pow2 p \<le> q" using ilog2_lower [OF qpos] by simp
  then have "pow2 52 \<le> q / pow2 p" using pow2_pos [of p] by (simp add: pos_le_divide_eq)
  then have "of_int (2 ^ 52) \<le> q / pow2 p" by (simp add: pow2_def)
  then have n52: "2 ^ 52 \<le> n" unfolding n_def by (rule roundHalfEven_ge)
  have v: "of_int n * pow2 p = of_int (n * 2 ^ nat p)" using p by (simp add: pow2_def)
  have "(2::int) ^ 52 * 2 ^ 1 \<le> n * 2 ^ nat p"
    using n52 p by (intro mult_mono) (simp_all add: self_le_power)
  then have big: "2 ^ 53 \<le> n * 2 ^ nat p" by simp
  have "toNumber q = (if 2 ^ 1024 \<le> of_int n * pow2 p then PosInf else Fin (of_int n * pow2 p))"
    using qpos by (simp add: toNumber_def toNumberPos_def Let_def p_def n_def)
  then show ?thesis using big by (auto simp: v simp del: of_int_mult of_int_power)
qed


lemma toNumber_of_int_cases:
  "toNumber (of_int n) = PosInf \<or> toNumber (of_int n) = NegInf \<or>
   (\<exists>z. toNumber (of_int n) = Fin (of_int z))"
proof -
  consider "\<bar>n\<bar> \<le> 2 ^ 53" | "2 ^ 53 < n" | "n < - (2 ^ 53)" by linarith
  then show ?thesis
  proof cases
    case 1
    then show ?thesis by (simp add: toNumber_int_exact)
  next
    case 2
    then have "(2::rat) ^ 53 \<le> of_int n"
      by (metis less_imp_le of_int_le_iff of_int_numeral of_int_power)
    from toNumber_large [OF this] show ?thesis by blast
  next
    case 3
    then have "2 ^ 53 \<le> - n" by simp
    then have b: "(2::rat) ^ 53 \<le> of_int (- n)"
      by (metis of_int_le_iff of_int_numeral of_int_power)
    then have pos: "(0::rat) < of_int (- n)" by (simp add: less_le_trans [of 0 "2 ^ 53"])
    then have neg: "toNumber (of_int n) = numNeg (toNumber (of_int (- n)))"
      by (simp add: toNumber_def)
    from toNumber_large [OF b] show ?thesis
    proof
      assume "toNumber (of_int (- n)) = PosInf"
      then show ?thesis by (simp add: neg numNeg_def)
    next
      assume "\<exists>z. toNumber (of_int (- n)) = Fin (of_int z) \<and> 2 ^ 53 \<le> z"
      then obtain z where "toNumber (of_int (- n)) = Fin (of_int z)" by blast
      then have "toNumber (of_int n) = Fin (of_int (- z))" by (simp add: neg numNeg_def)
      then show ?thesis by blast
    qed
  qed
qed


section \<open>Evaluating the parser\<close>

text \<open>The two ways through one test of the range loop, as conditional equations.\<close>

lemma rangeLoop_step:
  "numLe i endv \<Longrightarrow> rangeLoop i endv step result = rangeLoop (numAdd i step) endv step (result @ [i])"
  by (subst rangeLoop.simps) simp

lemma rangeLoop_stop: "\<not> numLe i endv \<Longrightarrow> rangeLoop i endv step result = Some result"
  by (subst rangeLoop.simps) simp

lemmas string_eval = js_def trim_def trimStart_def isWhiteSpace_def toString_def
lemmas number_eval = toNumber_numeral toNumber_0 toNumber_1 isNaN_def
lemmas parse_eval = parseValues_def parsePart_def parseInt_def parseFloat_def exponentPart_def
  stripSign_def isDigit_def digitVal_def digitsVal_def pow10_def
lemmas loop_eval = rangeLoop_step rangeLoop_stop

section \<open>The value-specification parser\<close>

text \<open>
  C3: parsing \<open>"1-5"\<close> yields \<open>[1,2,3,4,5]\<close>, parsing \<open>"1-10:2"\<close> yields
  \<open>[1,3,5,7,9]\<close>, parsing \<open>"1,2,3"\<close> yields \<open>[1,2,3]\<close>, and parsing \<open>"abc"\<close>
  yields the empty list.
\<close>

theorem parseValues_examples:
  "parseValues (js ''1-5'') = Some (Inr [Fin 1, Fin 2, Fin 3, Fin 4, Fin 5]) \<and>
   parseValues (js ''1-10:2'') = Some (Inr [Fin 1, Fin 3, Fin 5, Fin 7, Fin 9]) \<and>
   parseValues (js ''1,2,3'') = Some (Inr [Fin 1, Fin 2, Fin 3]) \<and>
   parseValues (js ''abc'') = Some (Inr [])"
  by (simp add: string_eval number_eval parse_eval loop_eval)

subsection \<open>The range loop\<close>

lemma numAdd_nonNegative:
  assumes "nonNegative i" "numGt s (Fin 0)"
  shows "nonNegative (numAdd i s)"
proof (cases i)
  case (Fin a)
  show ?thesis
  proof (cases s)
    case s: (Fin b)
    with assms Fin have "0 \<le> a + b" by (simp add: nonNegative_def)
    from toNumber_nonneg [OF this] show ?thesis using Fin s by (auto simp: nonNegative_def)
  qed (use assms Fin in \<open>simp_all add: nonNegative_def\<close>)
next
  case PosInf
  then show ?thesis using assms by (cases s) (simp_all add: nonNegative_def)
qed (use assms in \<open>simp_all add: nonNegative_def\<close>)

lemma rangeLoop_nonNegative:
  assumes "rangeLoop i endv step result = Some y"
    and "nonNegative i" "numGt step (Fin 0)" "list_all nonNegative result"
  shows "list_all nonNegative y"
proof -
  have "nonNegative i \<longrightarrow> numGt step (Fin 0) \<longrightarrow> list_all nonNegative result
          \<longrightarrow> list_all nonNegative y"
  proof (rule rangeLoop.raw_induct [OF _ assms(1)])
    fix f i endv step result y
    assume IH: "\<And>i endv step result y. f i endv step result = Some y \<Longrightarrow>
        nonNegative i \<longrightarrow> numGt step (Fin 0) \<longrightarrow> list_all nonNegative result
          \<longrightarrow> list_all nonNegative y"
      and eq: "(if numLe i endv then f (numAdd i step) endv step (result @ [i]) else Some result)
        = Some y"
    show "nonNegative i \<longrightarrow> numGt step (Fin 0) \<longrightarrow> list_all nonNegative result
          \<longrightarrow> list_all nonNegative y"
    proof (cases "numLe i endv")
      case True
      with eq have "f (numAdd i step) endv step (result @ [i]) = Some y" by simp
      from IH [OF this] show ?thesis by (simp add: numAdd_nonNegative)
    next
      case False
      with eq show ?thesis by simp
    qed
  qed
  with assms show ?thesis by simp
qed

lemma rangeLoop_diverges:
  assumes "numAdd i step = i" "numLe i endv"
  shows "rangeLoop i endv step result = None"
proof (cases "rangeLoop i endv step result")
  case (Some y)
  have "numAdd i step = i \<longrightarrow> numLe i endv \<longrightarrow> False"
  proof (rule rangeLoop.raw_induct [OF _ Some])
    fix f i endv step result y
    assume IH: "\<And>i endv step result y. f i endv step result = Some y \<Longrightarrow>
        numAdd i step = i \<longrightarrow> numLe i endv \<longrightarrow> False"
      and eq: "(if numLe i endv then f (numAdd i step) endv step (result @ [i]) else Some result)
        = Some y"
    show "numAdd i step = i \<longrightarrow> numLe i endv \<longrightarrow> False"
    proof (intro impI)
      assume a: "numAdd i step = i" "numLe i endv"
      with eq have "f i endv step (result @ [i]) = Some y" by simp
      from IH [OF this] a show False by simp
    qed
  qed
  with assms show ?thesis by simp
qed simp

subsection \<open>Splitting, trimming and signs\<close>

lemma splitOn_not_Nil: "splitOn c s \<noteq> []"
  by (induction s) (auto split: list.splits)

lemma splitOn_no_sep: "p \<in> set (splitOn c s) \<Longrightarrow> c \<notin> set p"
proof (induction s arbitrary: p)
  case Nil
  then show ?case by simp
next
  case (Cons x xs)
  show ?case
  proof (cases "x = c")
    case True
    with Cons show ?thesis by auto
  next
    case False
    obtain q qs where q: "splitOn c xs = q # qs"
      using splitOn_not_Nil [of c xs] by (cases "splitOn c xs") auto
    with Cons.prems False have "p = x # q \<or> p \<in> set qs" by auto
    then show ?thesis
    proof
      assume "p = x # q"
      moreover have "c \<notin> set q" using Cons.IH [of q] q by simp
      ultimately show ?thesis using False by auto
    next
      assume "p \<in> set qs"
      then show ?thesis using Cons.IH [of p] q by simp
    qed
  qed
qed

lemma splitOn_hd_Cons:
  "x \<noteq> c \<Longrightarrow> \<exists>p ps. splitOn c (x # xs) = (x # p) # ps"
  using splitOn_not_Nil [of c xs] by (cases "splitOn c xs") auto

lemma destructure2_set:
  "destructure2 xs = (a, b) \<Longrightarrow> (\<forall>x. a = Some x \<longrightarrow> x \<in> set xs) \<and> (\<forall>x. b = Some x \<longrightarrow> x \<in> set xs)"
  by (cases xs rule: destructure2.cases) auto

lemma set_trimStart: "set (trimStart s) \<subseteq> set s"
  by (simp add: trimStart_def set_dropWhileD subsetI)

lemma set_trim: "set (trim s) \<subseteq> set s"
  by (auto simp: trim_def dest!: set_dropWhileD)

lemma stripSign_no_minus:
  "45 \<notin> set s \<Longrightarrow> fst (stripSign s) = 1"
  by (cases s) (auto simp: stripSign_def)

lemma nonNegative_toNumber: "0 \<le> q \<Longrightarrow> nonNegative (toNumber q)"
  using toNumber_nonneg [of q] by (auto simp: nonNegative_def)

lemma toNumber_not_NaN: "toNumber q \<noteq> NaN"
  by (simp add: toNumber_def toNumberPos_def numNeg_def Let_def)

lemma parseInt_no_minus:
  assumes "45 \<notin> set s"
  shows "isNaN (parseInt s) \<or> nonNegative (parseInt s)"
proof -
  have "45 \<notin> set (trimStart s)" using assms set_trimStart by blast
  then have "fst (stripSign (trimStart s)) = 1" by (rule stripSign_no_minus)
  then show ?thesis
    by (auto simp: parseInt_def Let_def split_beta isNaN_def intro!: nonNegative_toNumber)
qed

lemma parseFloat_no_minus:
  assumes "45 \<notin> set s"
  shows "isNaN (parseFloat s) \<or> nonNegative (parseFloat s)"
proof -
  have "45 \<notin> set (trimStart s)" using assms set_trimStart by blast
  then have s: "fst (stripSign (trimStart s)) = 1" by (rule stripSign_no_minus)
  have p: "0 \<le> pow10 k" for k by (simp add: pow10_def)
  show ?thesis
    unfolding parseFloat_def Let_def split_beta s
    by (auto simp: isNaN_def nonNegative_def p intro!: nonNegative_toNumber [unfolded nonNegative_def])
qed

subsection \<open>One segment\<close>

lemma parseInt_undefined: "parseInt (js ''undefined'') = NaN"
  by (simp add: string_eval parse_eval)

lemma parseInt_bound_no_minus:
  assumes "destructure2 (splitOn 45 rg) = (a, b)"
  shows "(isNaN (parseInt (toString a)) \<or> nonNegative (parseInt (toString a)))"
proof (cases a)
  case None
  then show ?thesis by (simp add: toString_def parseInt_undefined isNaN_def)
next
  case (Some x)
  then have "x \<in> set (splitOn 45 rg)" using destructure2_set [OF assms] by simp
  then have "45 \<notin> set x" by (rule splitOn_no_sep)
  then show ?thesis using Some by (simp add: toString_def parseInt_no_minus)
qed

lemma parsePart_nonNegative:
  assumes "parsePart part result = Some (Inr y)" "list_all nonNegative result"
  shows "list_all nonNegative y"
proof (cases "45 \<in> set part")
  case False
  then show ?thesis
    using assms parseFloat_no_minus [of part]
    by (auto simp: parsePart_def Let_def split: if_splits)
next
  case True
  obtain range stepStr where d1: "destructure2 (splitOn 58 part) = (range, stepStr)"
    by (cases "destructure2 (splitOn 58 part)")
  show ?thesis
  proof (cases range)
    case None
    with assms True d1 show ?thesis by (simp add: parsePart_def)
  next
    case (Some rg)
    obtain startStr endStr where d2: "destructure2 (splitOn 45 rg) = (startStr, endStr)"
      by (cases "destructure2 (splitOn 45 rg)")
    define start where "start = parseInt (toString startStr)"
    define endv where "endv = parseInt (toString endStr)"
    define step where "step = (if stepStr \<noteq> None \<and> stepStr \<noteq> Some [] then parseInt (toString stepStr) else Fin 1)"
    have eq: "parsePart part result =
        (if \<not> isNaN start \<and> \<not> isNaN endv \<and> \<not> isNaN step \<and> numGt step (Fin 0)
         then map_option Inr (rangeLoop start endv step result) else Some (Inr result))"
      using True d1 Some d2 by (simp add: parsePart_def start_def endv_def step_def)
    show ?thesis
    proof (cases "\<not> isNaN start \<and> \<not> isNaN endv \<and> \<not> isNaN step \<and> numGt step (Fin 0)")
      case False
      with eq assms show ?thesis by auto
    next
      case guard: True
      have loop: "rangeLoop start endv step result = Some y"
        using eq guard assms(1) by (cases "rangeLoop start endv step result") simp_all
      have "nonNegative start"
        using parseInt_bound_no_minus [OF d2] guard by (simp add: start_def)
      with loop guard assms(2) show ?thesis by (intro rangeLoop_nonNegative [OF loop]) simp_all
    qed
  qed
qed

lemma parseParts_nonNegative:
  "parseParts parts result = Some (Inr y) \<Longrightarrow> list_all nonNegative result \<Longrightarrow> list_all nonNegative y"
proof (induction parts arbitrary: result)
  case Nil
  then show ?case by simp
next
  case (Cons part parts)
  from Cons.prems(1) obtain r where r: "parsePart part result = Some (Inr r)"
    and rest: "parseParts parts r = Some (Inr y)"
    by (auto split: option.splits sum.splits)
  from parsePart_nonNegative [OF r Cons.prems(2)] Cons.IH [OF rest] show ?case by simp
qed

lemma parsePart_leading_minus:
  assumes "part = 45 # t"
  shows "parsePart part result = Some (Inr result)"
proof -
  obtain p ps where sp: "splitOn 58 part = (45 # p) # ps"
    using splitOn_hd_Cons [of 45 58 t] assms by auto
  have "splitOn 45 (45 # p) = [] # splitOn 45 p" by simp
  then obtain b where d2: "destructure2 (splitOn 45 (45 # p)) = (Some [], b)"
    using splitOn_not_Nil [of 45 p] by (cases "splitOn 45 p") auto
  have nan: "parseInt [] = NaN" by (simp add: string_eval parse_eval)
  obtain sstr where d1: "destructure2 (splitOn 58 part) = (Some (45 # p), sstr)"
    using sp by (cases ps) auto
  show ?thesis
    using assms d1 d2 nan by (simp add: parsePart_def toString_def isNaN_def Let_def)
qed

subsection \<open>Results are never negative\<close>

text \<open>
  C8: for every input string, every number in the list returned by \<open>parseValues\<close> is
  non-negative; a segment beginning with \<open>-\<close>, such as \<open>-3\<close>, is a range with an
  empty start bound and is dropped.
\<close>

theorem parseValues_nonNegative:
  "(parseValues input = Some (Inr vs) \<longrightarrow> list_all nonNegative vs) \<and>
   parsePart (45 # t) result = Some (Inr result) \<and>
   parseValues (js ''-3'') = Some (Inr [])"
proof (intro conjI impI)
  assume "parseValues input = Some (Inr vs)"
  then show "list_all nonNegative vs"
    unfolding parseValues_def by (rule parseParts_nonNegative) simp
next
  show "parsePart (45 # t) result = Some (Inr result)"
    by (rule parsePart_leading_minus) simp
next
  show "parseValues (js ''-3'') = Some (Inr [])"
    by (simp add: string_eval number_eval parse_eval)
qed

theorem parseValues_nonNegative_witness:
  "parseValues (js ''3,1-2,-4'') = Some (Inr [Fin 3, Fin 1, Fin 2]) \<and>
   list_all nonNegative [Fin 3, Fin 1, Fin 2]"
proof -
  have p: "parseValues (js ''3,1-2,-4'') = Some (Inr [Fin 3, Fin 1, Fin 2])"
    by (simp add: string_eval number_eval parse_eval loop_eval)
  with parseValues_nonNegative [of "js ''3,1-2,-4''" "[Fin 3, Fin 1, Fin 2]"]
  show ?thesis by blast
qed

subsection \<open>The parser raises nothing\<close>

lemma parsePart_no_error: "parsePart part result \<noteq> Some (Inl e)"
proof -
  obtain p ps where "splitOn 58 part = p # ps"
    using splitOn_not_Nil [of 58 part] by (cases "splitOn 58 part") auto
  then obtain b where "destructure2 (splitOn 58 part) = (Some p, b)"
    by (cases ps) auto
  then show ?thesis
    by (auto simp: parsePart_def Let_def split: prod.splits)
qed

lemma parseParts_no_error: "parseParts parts result \<noteq> Some (Inl e)"
  by (induction parts arbitrary: result) (auto simp: parsePart_no_error split: option.splits sum.splits)

lemma parseValues_no_error: "parseValues input \<noteq> Some (Inl e)"
  by (simp add: parseValues_def parseParts_no_error)

subsection \<open>Ranges that end below \<open>2^53\<close>\<close>

text \<open>
  Below \<open>2^53\<close> the loop variable grows by at least one at every turn, and the first
  value from \<open>2^53\<close> on is above the end bound: the loop ends, and the parser returns
  on every specification whose ranges end below \<open>2^53\<close>.
\<close>

lemma rangeLoop_returns_int:
  assumes "e < 2 ^ 53" "1 \<le> k"
  shows "nat (\<lfloor>e\<rfloor> - a + 1) < n \<Longrightarrow> 0 \<le> a \<Longrightarrow>
    \<exists>y. rangeLoop (Fin (of_int a)) (Fin e) (Fin (of_int k)) result = Some y"
proof (induction n arbitrary: a result)
  case 0
  then show ?case by simp
next
  case (Suc n)
  show ?case
  proof (cases "of_int a \<le> e")
    case False
    then show ?thesis by (simp add: rangeLoop_stop)
  next
    case True
    then have ae: "a \<le> \<lfloor>e\<rfloor>" by (simp add: le_floor_iff)
    have step: "rangeLoop (Fin (of_int a)) (Fin e) (Fin (of_int k)) result =
        rangeLoop (toNumber (of_int (a + k))) (Fin e) (Fin (of_int k)) (result @ [Fin (of_int a)])"
      using True by (simp add: rangeLoop_step)
    show ?thesis
    proof (cases "a + k \<le> 2 ^ 53")
      case small: True
      then have "toNumber (of_int (a + k)) = Fin (of_int (a + k))"
        using Suc.prems(2) assms(2) by (intro toNumber_int_exact) simp
      moreover have "nat (\<lfloor>e\<rfloor> - (a + k) + 1) < n"
        using Suc.prems(1) ae assms(2) by linarith
      moreover have "0 \<le> a + k" using Suc.prems(2) assms(2) by simp
      ultimately show ?thesis using Suc.IH [of "a + k"] step by simp
    next
      case False
      then have "(2::rat) ^ 53 \<le> of_int (a + k)"
        by (metis less_imp_le not_le of_int_le_iff of_int_numeral of_int_power)
      from toNumber_large [OF this] have "\<not> numLe (toNumber (of_int (a + k))) (Fin e)"
      proof
        assume "toNumber (of_int (a + k)) = PosInf"
        then show ?thesis by simp
      next
        assume "\<exists>z. toNumber (of_int (a + k)) = Fin (of_int z) \<and> 2 ^ 53 \<le> z"
        then obtain z where z: "toNumber (of_int (a + k)) = Fin (of_int z)" "2 ^ 53 \<le> z"
          by blast
        then have "(2::rat) ^ 53 \<le> of_int z"
          by (metis of_int_le_iff of_int_numeral of_int_power)
        with assms(1) z show ?thesis by simp
      qed
      then show ?thesis using step by (simp add: rangeLoop_stop)
    qed
  qed
qed

lemma parseInt_cases:
  "parseInt s = NaN \<or> parseInt s = PosInf \<or> parseInt s = NegInf \<or>
   (\<exists>z. parseInt s = Fin (of_int z))"
proof -
  have "parseInt s = NaN \<or> (\<exists>n. parseInt s = toNumber (of_int n))"
    unfolding parseInt_def Let_def split_beta by (rule if_split [THEN iffD2]) blast
  then show ?thesis
  proof
    assume "parseInt s = NaN"
    then show ?thesis by simp
  next
    assume "\<exists>n. parseInt s = toNumber (of_int n)"
    then obtain n where "parseInt s = toNumber (of_int n)" by blast
    with toNumber_of_int_cases [of n] show ?thesis by metis
  qed
qed

lemma rangeLoop_returns:
  assumes "e < 2 ^ 53"
    and "start = PosInf \<or> (\<exists>a\<ge>0. start = Fin (of_int a))"
    and "step = PosInf \<or> (\<exists>k\<ge>1. step = Fin (of_int k))"
  shows "\<exists>y. rangeLoop start (Fin e) step result = Some y"
  using assms(2)
proof
  assume "start = PosInf"
  then show ?thesis by (simp add: rangeLoop_stop)
next
  assume "\<exists>a\<ge>0. start = Fin (of_int a)"
  then obtain a where a: "0 \<le> a" "start = Fin (of_int a)" by blast
  from assms(3) show ?thesis
  proof
    assume s: "step = PosInf"
    show ?thesis
    proof (cases "of_int a \<le> e")
      case True
      then have "rangeLoop start (Fin e) step result =
          rangeLoop PosInf (Fin e) step (result @ [start])"
        using a s by (simp add: rangeLoop_step)
      then show ?thesis by (simp add: rangeLoop_stop)
    next
      case False
      then show ?thesis using a by (simp add: rangeLoop_stop)
    qed
  next
    assume "\<exists>k\<ge>1. step = Fin (of_int k)"
    then obtain k where k: "1 \<le> k" "step = Fin (of_int k)" by blast
    from rangeLoop_returns_int [OF assms(1) k(1), of a "Suc (nat (\<lfloor>e\<rfloor> - a + 1))" result] a k
    show ?thesis by simp
  qed
qed

lemma parsePart_returns:
  assumes "boundedRange part"
  shows "\<exists>y. parsePart part result = Some (Inr y)"
proof (cases "45 \<in> set part")
  case False
  then show ?thesis by (simp add: parsePart_def Let_def)
next
  case True
  obtain range stepStr where d1: "destructure2 (splitOn 58 part) = (range, stepStr)"
    by (cases "destructure2 (splitOn 58 part)")
  show ?thesis
  proof (cases range)
    case None
    then show ?thesis
      using parsePart_no_error [of part result TypeError] True d1 by (simp add: parsePart_def)
  next
    case (Some rg)
    obtain startStr endStr where d2: "destructure2 (splitOn 45 rg) = (startStr, endStr)"
      by (cases "destructure2 (splitOn 45 rg)")
    define start where "start = parseInt (toString startStr)"
    define endv where "endv = parseInt (toString endStr)"
    define step where "step = (if stepStr \<noteq> None \<and> stepStr \<noteq> Some [] then parseInt (toString stepStr) else Fin 1)"
    have eq: "parsePart part result =
        (if \<not> isNaN start \<and> \<not> isNaN endv \<and> \<not> isNaN step \<and> numGt step (Fin 0)
         then map_option Inr (rangeLoop start endv step result) else Some (Inr result))"
      using True d1 Some d2 by (simp add: parsePart_def start_def endv_def step_def)
    show ?thesis
    proof (cases "\<not> isNaN start \<and> \<not> isNaN endv \<and> \<not> isNaN step \<and> numGt step (Fin 0)")
      case False
      with eq show ?thesis by auto
    next
      case guard: True
      have b: "case endv of Fin e \<Rightarrow> e < 2 ^ 53 | PosInf \<Rightarrow> False | _ \<Rightarrow> True"
        using assms d1 Some d2 by (simp add: boundedRange_def endv_def)
      have "endv \<noteq> NegInf"
        using parseInt_no_minus [of "toString endStr"] destructure2_set [OF d2]
          splitOn_no_sep [of _ 45 rg] parseInt_undefined
        by (cases endStr) (auto simp: endv_def toString_def isNaN_def nonNegative_def)
      with b guard obtain e where e: "endv = Fin e" "e < 2 ^ 53"
        by (cases endv) (auto simp: isNaN_def)
      have "nonNegative start"
        using parseInt_bound_no_minus [OF d2] guard by (simp add: start_def)
      moreover have "start = NaN \<or> start = PosInf \<or> start = NegInf \<or> (\<exists>z. start = Fin (of_int z))"
        unfolding start_def by (rule parseInt_cases)
      ultimately have s: "start = PosInf \<or> (\<exists>a\<ge>0. start = Fin (of_int a))"
        by (auto simp: nonNegative_def)
      have "step = NaN \<or> step = PosInf \<or> step = NegInf \<or> (\<exists>z. step = Fin (of_int z))"
        using parseInt_cases [of "toString stepStr"] by (auto simp: step_def intro: exI [of _ 1])
      then have k: "step = PosInf \<or> (\<exists>k\<ge>1. step = Fin (of_int k))"
        using guard by (auto simp: isNaN_def)
      from rangeLoop_returns [OF e(2) s k, of result] eq guard e show ?thesis by auto
    qed
  qed
qed

lemma parseParts_returns:
  "\<forall>part \<in> set parts. boundedRange part \<Longrightarrow> \<exists>y. parseParts parts result = Some (Inr y)"
proof (induction parts arbitrary: result)
  case Nil
  show ?case by simp
next
  case (Cons part parts)
  then obtain r where "parsePart part result = Some (Inr r)"
    using parsePart_returns [of part result] by auto
  with Cons show ?case by simp
qed

theorem parseValues_returns:
  "\<forall>part \<in> set (map trim (splitOn 44 input)). boundedRange part \<Longrightarrow>
   \<exists>vs. parseValues input = Some (Inr vs)"
  unfolding parseValues_def by (rule parseParts_returns)

lemma boundedRange_example:
  "\<forall>part \<in> set (map trim (splitOn 44 (js ''1-5, 7, 3-9:2''))). boundedRange part"
  by (simp add: boundedRange_def string_eval number_eval parse_eval)

subsection \<open>A range that never ends\<close>

text \<open>
  C9: \<open>parseValues\<close> is claimed to return on every input string. From \<open>2^53\<close> on,
  adding the step \<open>1\<close> to the loop variable rounds back to the same Number, so the
  range \<open>9007199254740992-9007199254740994\<close> never leaves the loop: the parser does
  not return.
\<close>

theorem parseValues_diverges:
  "parseValues (js ''9007199254740992-9007199254740994'') = None"
  by (simp add: string_eval number_eval parse_eval toNumber_above toNumber_absorb
      rangeLoop_diverges)

subsection \<open>Literal segments\<close>

lemma isDigit_10: "isDigit 10 c = decimalDigit c"
  by (auto simp: isDigit_def digitVal_def decimalDigit_def)

lemma not_decimalDigit_dot: "\<not> decimalDigit 46"
  by (simp add: decimalDigit_def)


lemma parseFloat_NaN_iff: "parseFloat s = NaN \<longleftrightarrow> \<not> numericPrefix s"
proof -
  obtain sign t where st: "stripSign (trimStart s) = (sign, t)"
    by (cases "stripSign (trimStart s)")
  show ?thesis
  proof (cases "prefix (js ''Infinity'') t")
    case True
    then show ?thesis using st by (simp add: parseFloat_def numericPrefix_def)
  next
    case False
    show ?thesis
    proof (cases t)
      case Nil
      then show ?thesis using st False
        by (simp add: parseFloat_def numericPrefix_def Let_def)
    next
      case (Cons c u)
      show ?thesis
      proof (cases "decimalDigit c")
        case True
        then show ?thesis using st False Cons
          by (simp add: parseFloat_def numericPrefix_def Let_def isDigit_10 toNumber_not_NaN)
      next
        case nd: False
        then have ip: "takeWhile (isDigit 10) t = []" "dropWhile (isDigit 10) t = t"
          using Cons by (simp_all add: isDigit_10)
        show ?thesis
          using st False Cons nd
          by (cases u)
            (simp_all add: parseFloat_def numericPrefix_def Let_def isDigit_10 toNumber_not_NaN
              not_decimalDigit_dot)
      qed
    qed
  qed
qed

lemma parsePart_literal:
  assumes "45 \<notin> set part"
  shows "parsePart part result =
    (if numericPrefix part then Some (Inr (result @ [parseFloat part])) else Some (Inr result))"
  using assms parseFloat_NaN_iff [of part]
  by (auto simp: parsePart_def Let_def isNaN_def)

lemma toNumber_15_2: "toNumber (15 / 2) = Fin (15 / 2)"
  using toNumber_exact [of 15 "- 1"] by (simp add: pow2_def)

text \<open>
  C10: a literal segment (one with no \<open>-\<close>) is read by \<open>parseFloat\<close>: \<open>"7.5"\<close>
  yields the non-integer \<open>7.5\<close>, \<open>"7abc"\<close> yields \<open>7\<close> from its numeric prefix, and a
  literal segment yields nothing exactly when it has no leading numeric prefix.
\<close>

theorem literal_segment_parseFloat:
  "parseValues (js ''7.5'') = Some (Inr [Fin (15 / 2)]) \<and>
   parseValues (js ''7abc'') = Some (Inr [Fin 7]) \<and>
   (45 \<notin> set part \<longrightarrow>
      parsePart part result =
        (if numericPrefix part then Some (Inr (result @ [parseFloat part]))
         else Some (Inr result)) \<and>
      (numericPrefix part \<longleftrightarrow> parseFloat part \<noteq> NaN))"
proof (intro conjI impI)
  show "parseValues (js ''7.5'') = Some (Inr [Fin (15 / 2)])"
    by (simp add: string_eval number_eval parse_eval toNumber_15_2)
  show "parseValues (js ''7abc'') = Some (Inr [Fin 7])"
    by (simp add: string_eval number_eval parse_eval)
next
  assume "45 \<notin> set part"
  then show "parsePart part result =
      (if numericPrefix part then Some (Inr (result @ [parseFloat part]))
       else Some (Inr result))"
    by (rule parsePart_literal)
next
  show "numericPrefix part \<longleftrightarrow> parseFloat part \<noteq> NaN"
    by (simp add: parseFloat_NaN_iff)
qed

theorem literal_segment_parseFloat_witness:
  "45 \<notin> set (js ''7abc'') \<and> numericPrefix (js ''7abc'') \<and>
   parsePart (js ''7abc'') [] = Some (Inr [Fin 7]) \<and>
   45 \<notin> set (js ''abc'') \<and> \<not> numericPrefix (js ''abc'') \<and>
   parsePart (js ''abc'') [] = Some (Inr [])"
proof -
  have m: "45 \<notin> set (js ''7abc'')" "45 \<notin> set (js ''abc'')"
    by (simp_all add: js_def)
  have n: "numericPrefix (js ''7abc'')" "\<not> numericPrefix (js ''abc'')"
    by (simp_all add: numericPrefix_def decimalDigit_def string_eval stripSign_def)
  have v: "parseFloat (js ''7abc'') = Fin 7"
    by (simp add: string_eval number_eval parse_eval)
  from literal_segment_parseFloat [of "js ''7abc''" "[]"]
    literal_segment_parseFloat [of "js ''abc''" "[]"] m n v
  show ?thesis by simp
qed

subsection \<open>Invalid segments are dropped\<close>










lemma toNumber_neg_numeral:
  "numeral n \<le> (2::int) ^ 53 \<Longrightarrow> toNumber (- numeral n) = Fin (- numeral n)"
  using toNumber_int_exact [of "- numeral n"] by simp




















section \<open>The expansion\<close>

subsection \<open>The product, first array slowest\<close>

lemma foldl_product:
  "foldl (\<lambda>acc arr. concat (map (\<lambda>x. map (\<lambda>y. x @ [y]) arr) acc)) acc arrays =
   concat (map (\<lambda>a. map ((@) a) (product_lists arrays)) acc)"
proof (induction arrays arbitrary: acc)
  case Nil
  show ?case by (induction acc) simp_all
next
  case (Cons xs xss)
  have "concat (map (\<lambda>a. map ((@) a) (product_lists xss)) (concat (map (\<lambda>x. map (\<lambda>y. x @ [y]) xs) acc)))
      = concat (map (\<lambda>a. map ((@) a) (concat (map (\<lambda>x. map ((#) x) (product_lists xss)) xs))) acc)"
  proof (induction acc)
    case Nil
    show ?case by simp
  next
    case (Cons a acc)
    have "concat (map (\<lambda>a'. map ((@) a') (product_lists xss)) (map (\<lambda>y. a @ [y]) xs))
        = map ((@) a) (concat (map (\<lambda>x. map ((#) x) (product_lists xss)) xs))"
      by (induction xs) (simp_all add: comp_def)
    with Cons show ?case by simp
  qed
  with Cons.IH show ?case by simp
qed

lemma cartesianProduct_product_lists: "cartesianProduct arrays = product_lists arrays"
proof (cases arrays)
  case Nil
  then show ?thesis by (simp add: cartesianProduct_def)
next
  case (Cons xs xss)
  have "(@) ([] :: 'a list) = (\<lambda>x. x)" by (rule ext) simp
  then show ?thesis
    using Cons foldl_product [of "[[]]" arrays] by (simp add: cartesianProduct_def comp_def)
qed

lemma cartesianProduct_Nil: "cartesianProduct [] = [[]]"
  by (simp add: cartesianProduct_product_lists)

lemma cartesianProduct_Cons:
  "cartesianProduct (xs # xss) = concat (map (\<lambda>x. map ((#) x) (cartesianProduct xss)) xs)"
  by (simp add: cartesianProduct_product_lists)

lemma length_cartesianProduct:
  "length (cartesianProduct xss) = prod_list (map length xss)"
  by (simp add: cartesianProduct_product_lists length_product_lists prod_list.eq_foldr)

lemma in_cartesianProduct:
  "combo \<in> set (cartesianProduct xss) \<longleftrightarrow> list_all2 (\<lambda>v vs. v \<in> set vs) combo xss"
  by (simp add: cartesianProduct_product_lists product_lists_set)

lemma distinct_cartesianProduct:
  "\<forall>xs \<in> set xss. distinct xs \<Longrightarrow> distinct (cartesianProduct xss)"
  by (simp add: cartesianProduct_product_lists distinct_product_lists)


subsection \<open>From the state to the combinations\<close>

lemma pushParam_parsed:
  assumes "parsed c"
  shows "pushParam f c pas = Some (Inr (pas @ filter (\<lambda>(f, vs). vs \<noteq> []) [(f, valueList c)]))"
proof (cases "enabled c")
  case False
  then show ?thesis by (simp add: pushParam_def valueList_def)
next
  case True
  with assms obtain r where r: "parseValues (values c) = Some r" by (auto simp: parsed_def)
  with parseValues_no_error [of "values c"] obtain vs where "r = Inr vs" by (cases r) auto
  with r True show ?thesis by (simp add: pushParam_def valueList_def)
qed


lemma comboParams_zip:
  "index + length combo \<le> length pas \<Longrightarrow>
   comboParams nid pas index combo =
     Inr (map (\<lambda>(pa, v). \<lparr>node_id = nid, field = fst pa, value = v\<rparr>) (zip (drop index pas) combo))"
proof (induction combo arbitrary: index)
  case Nil
  then show ?case by simp
next
  case (Cons v combo)
  then have lt: "index < length pas" by simp
  then have d: "drop index pas = pas ! index # drop (Suc index) pas"
    by (simp add: Cons_nth_drop_Suc)
  from Cons.prems have "Suc index + length combo \<le> length pas" by simp
  from Cons.IH [OF this] lt show ?case by (simp add: d)
qed

lemma mapParams_overrides:
  "\<forall>combo \<in> set combinations. length combo \<le> length pas \<Longrightarrow>
   mapParams nid pas combinations = Inr (map (overrides nid pas) combinations)"
proof (induction combinations)
  case Nil
  then show ?case by simp
next
  case (Cons combo combinations)
  then have "comboParams nid pas 0 combo = Inr (overrides nid pas combo)"
    using comboParams_zip [of 0 combo pas nid] by (simp add: overrides_def)
  with Cons show ?case by simp
qed

lemma mapParams_cartesianProduct:
  "mapParams nid pas (cartesianProduct (map snd pas)) =
     Inr (map (overrides nid pas) (cartesianProduct (map snd pas)))"
proof (rule mapParams_overrides, rule ballI)
  fix combo
  assume "combo \<in> set (cartesianProduct (map snd pas))"
  then have "length combo = length (map snd pas)"
    unfolding cartesianProduct_product_lists by (rule in_set_product_lists_length)
  then show "length combo \<le> length pas" by simp
qed

lemma generateParams_parsed:
  assumes "parsed (seedConfig st)" "parsed (stepsConfig st)" "parsed (cfgConfig st)"
  shows "generateParams st =
    Some (Inr (if participating st = [] then []
               else map (overrides (nodeId st) (participating st))
                      (cartesianProduct (map snd (participating st)))))"
proof -
  define F where "F = filter (\<lambda>(f :: string, vs :: number list). vs \<noteq> [])"
  have p: "participating st =
      F [(''seed'', valueList (seedConfig st))] @ F [(''steps'', valueList (stepsConfig st))]
        @ F [(''cfg'', valueList (cfgConfig st))]"
    by (simp add: participating_def dimensions_def F_def)
  have "generateParams st =
      (if length (participating st) = 0 then Some (Inr [])
       else Some (mapParams (nodeId st) (participating st)
                    (cartesianProduct (map snd (participating st)))))"
    unfolding generateParams_def pushParam_parsed [OF assms(1)] pushParam_parsed [OF assms(2)]
      pushParam_parsed [OF assms(3)] F_def [symmetric] p
    by (simp only: option.case sum.case append_Nil append_assoc)
  then show ?thesis by (simp add: mapParams_cartesianProduct)
qed

lemma overrides_shape:
  assumes "length combo = length pas"
  shows "length (overrides nid pas combo) = length pas"
    and "map field (overrides nid pas combo) = map fst pas"
    and "map value (overrides nid pas combo) = combo"
    and "\<forall>p \<in> set (overrides nid pas combo). node_id p = nid"
proof -
  show "length (overrides nid pas combo) = length pas"
    using assms by (simp add: overrides_def)
  have "map field (overrides nid pas combo) = map fst (map fst (zip pas combo))"
    by (simp add: overrides_def comp_def split_beta)
  then show "map field (overrides nid pas combo) = map fst pas"
    using assms by simp
  have "map value (overrides nid pas combo) = map snd (zip pas combo)"
    by (simp add: overrides_def comp_def split_beta)
  then show "map value (overrides nid pas combo) = combo"
    using assms by simp
  show "\<forall>p \<in> set (overrides nid pas combo). node_id p = nid"
    by (auto simp: overrides_def)
qed


lemma distinct_overrides:
  assumes "distinct combos" "\<forall>combo \<in> set combos. length combo = length pas"
  shows "distinct (map (overrides nid pas) combos)"
proof -
  have "inj_on (overrides nid pas) (set combos)"
  proof (rule inj_onI)
    fix a b
    assume a: "a \<in> set combos" and b: "b \<in> set combos"
      and eq: "overrides nid pas a = overrides nid pas b"
    have "a = map value (overrides nid pas a)"
      using overrides_shape(3) [of a pas nid] assms(2) a by simp
    also have "\<dots> = map value (overrides nid pas b)" by (simp only: eq)
    also have "\<dots> = b"
      using overrides_shape(3) [of b pas nid] assms(2) b by simp
    finally show "a = b" .
  qed
  with assms(1) show ?thesis by (simp add: distinct_map)
qed

lemmas component_eval = Let_def generateParams_def pushParam_def cartesianProduct_def initialState_def
  parsed_def participating_def dimensions_def valueList_def excluded_def overrides_def

lemma pushParam_excluded: "excluded c \<Longrightarrow> pushParam f c pas = Some (Inr pas)"
  by (auto simp: excluded_def pushParam_def)

lemma pushParam_no_values:
  "parseValues (values c) = Some (Inr []) \<Longrightarrow> pushParam f c pas = Some (Inr pas)"
  by (simp add: pushParam_def)

lemma pushParam_disabled: "pushParam f (c\<lparr>enabled := False\<rparr>) pas = Some (Inr pas)"
  by (simp add: pushParam_def)

subsection \<open>Size and shape of the expansion\<close>

text \<open>
  C1, as amended: when every enabled dimension has a parsed value list, the expansion
  returns as many combinations as the product of the sizes of the participating
  dimensions' value lists (and none when no dimension participates); each combination
  has one triple per participating dimension, in declared order, with the node of the
  state, the field of the dimension and one of its values; and the combinations are
  pairwise distinct when no value list repeats a value.
\<close>

theorem expansion_size_and_shape:
  assumes "parsed (seedConfig st)" "parsed (stepsConfig st)" "parsed (cfgConfig st)"
  shows "\<exists>combos. generateParams st = Some (Inr combos) \<and>
    length combos =
      (if participating st = [] then 0
       else prod_list (map (length \<circ> snd) (participating st))) \<and>
    (\<forall>combo \<in> set combos.
        length combo = length (participating st) \<and>
        map field combo = map fst (participating st) \<and>
        (\<forall>p \<in> set combo. node_id p = nodeId st) \<and>
        list_all2 (\<lambda>v pa. v \<in> set (snd pa)) (map value combo) (participating st)) \<and>
    ((\<forall>(f, vs) \<in> set (participating st). distinct vs) \<longrightarrow> distinct combos)"
proof -
  define pas where "pas = participating st"
  define prod where "prod = cartesianProduct (map snd pas)"
  define combos where "combos = map (overrides (nodeId st) pas) prod"
  have g: "generateParams st = Some (Inr (if pas = [] then [] else combos))"
    using generateParams_parsed [OF assms]
    by (simp add: combos_def prod_def pas_def)
  have len: "length c = length pas" if "c \<in> set prod" for c
    using that unfolding prod_def cartesianProduct_product_lists
    by (auto dest: in_set_product_lists_length)
  have n: "length combos = prod_list (map (length \<circ> snd) pas)"
    by (simp add: combos_def prod_def length_cartesianProduct)
  have shape: "length combo = length pas \<and> map field combo = map fst pas \<and>
      (\<forall>p \<in> set combo. node_id p = nodeId st) \<and>
      list_all2 (\<lambda>v pa. v \<in> set (snd pa)) (map value combo) pas" if "combo \<in> set combos" for combo
  proof -
    from that obtain c where c: "c \<in> set prod" and combo: "combo = overrides (nodeId st) pas c"
      by (auto simp: combos_def)
    note l = len [OF c]
    have "list_all2 (\<lambda>v vs. v \<in> set vs) c (map snd pas)"
      using c by (simp add: prod_def in_cartesianProduct)
    then have "list_all2 (\<lambda>v pa. v \<in> set (snd pa)) c pas"
      by (simp add: list_all2_map2)
    with overrides_shape [OF l, of "nodeId st"] show ?thesis by (simp add: combo)
  qed
  have d: "distinct combos" if "\<forall>(f, vs) \<in> set pas. distinct vs"
  proof -
    from that have "\<forall>xs \<in> set (map snd pas). distinct xs" by auto
    then have "distinct prod" unfolding prod_def by (rule distinct_cartesianProduct)
    then show ?thesis unfolding combos_def using len by (intro distinct_overrides) auto
  qed
  show ?thesis
  proof (cases "pas = []")
    case True
    with g show ?thesis by (simp add: pas_def)
  next
    case False
    with g have "generateParams st = Some (Inr combos)" by simp
    with n shape d False show ?thesis unfolding pas_def by auto
  qed
qed

theorem expansion_size_and_shape_witness:
  "parsed \<lparr>enabled = True, values = js ''1-2''\<rparr> \<and>
   parsed \<lparr>enabled = False, values = js ''20,30,40''\<rparr> \<and>
   parsed \<lparr>enabled = True, values = js ''7,8,9''\<rparr> \<and>
   participating (initialState\<lparr>seedConfig := \<lparr>enabled = True, values = js ''1-2''\<rparr>,
       cfgConfig := \<lparr>enabled = True, values = js ''7,8,9''\<rparr>\<rparr>) =
     [(''seed'', [Fin 1, Fin 2]), (''cfg'', [Fin 7, Fin 8, Fin 9])] \<and>
   (\<exists>combos.
      generateParams (initialState\<lparr>seedConfig := \<lparr>enabled = True, values = js ''1-2''\<rparr>,
        cfgConfig := \<lparr>enabled = True, values = js ''7,8,9''\<rparr>\<rparr>) = Some (Inr combos) \<and>
      length combos = 6 \<and> distinct combos)"
proof -
  define S where "S = initialState\<lparr>seedConfig := \<lparr>enabled = True, values = js ''1-2''\<rparr>,
       cfgConfig := \<lparr>enabled = True, values = js ''7,8,9''\<rparr>\<rparr>"
  have c: "seedConfig S = \<lparr>enabled = True, values = js ''1-2''\<rparr>"
    "stepsConfig S = \<lparr>enabled = False, values = js ''20,30,40''\<rparr>"
    "cfgConfig S = \<lparr>enabled = True, values = js ''7,8,9''\<rparr>"
    by (simp_all add: S_def initialState_def)
  have p: "parsed \<lparr>enabled = True, values = js ''1-2''\<rparr>"
    "parsed \<lparr>enabled = False, values = js ''20,30,40''\<rparr>"
    "parsed \<lparr>enabled = True, values = js ''7,8,9''\<rparr>"
    by (simp_all add: component_eval string_eval number_eval parse_eval loop_eval)
  have q: "participating S = [(''seed'', [Fin 1, Fin 2]), (''cfg'', [Fin 7, Fin 8, Fin 9])]"
    unfolding S_def by (simp add: component_eval string_eval number_eval parse_eval loop_eval)
  from expansion_size_and_shape [of S, unfolded c, OF p]
  obtain combos where g: "generateParams S = Some (Inr combos)"
    and n: "length combos =
      (if participating S = [] then 0 else prod_list (map (length \<circ> snd) (participating S)))"
    and d: "(\<forall>(f, vs) \<in> set (participating S). distinct vs) \<longrightarrow> distinct combos"
    by blast
  from n have "length combos = 6" by (simp add: q)
  moreover from d have "distinct combos" by (simp add: q)
  ultimately have "\<exists>combos. generateParams S = Some (Inr combos) \<and> length combos = 6 \<and> distinct combos"
    using g by blast
  with p q show ?thesis unfolding S_def by simp
qed

text \<open>
  C1 as stated asks for distinct combinations. The parser keeps a repeated value, so
  the seed specification \<open>"1,1"\<close> gives the same combination twice.
\<close>

theorem expansion_distinct_counterexample:
  "generateParams (initialState\<lparr>seedConfig := \<lparr>enabled = True, values = js ''1,1''\<rparr>\<rparr>) =
     Some (Inr [[\<lparr>node_id = js ''3'', field = ''seed'', value = Fin 1\<rparr>],
                [\<lparr>node_id = js ''3'', field = ''seed'', value = Fin 1\<rparr>]]) \<and>
   \<not> distinct [[\<lparr>node_id = js ''3'', field = ''seed'', value = Fin 1\<rparr>],
                [\<lparr>node_id = js ''3'', field = ''seed'', value = Fin 1\<rparr>]]"
  by (simp add: component_eval string_eval number_eval parse_eval loop_eval)

subsection \<open>Order of the expansion\<close>

text \<open>
  C2: the product is enumerated with the first array varying slowest and every array in
  its own order; the expansion is that product over the participating dimensions in
  declared order; and the seed specification \<open>"1-2"\<close> with the steps specification
  \<open>"10,20"\<close> gives the four combinations (1,10), (1,20), (2,10), (2,20) in this order.
\<close>

theorem expansion_order:
  "cartesianProduct [] = [[]] \<and>
   cartesianProduct (xs # xss) = concat (map (\<lambda>x. map ((#) x) (cartesianProduct xss)) xs) \<and>
   (parsed (seedConfig st) \<and> parsed (stepsConfig st) \<and> parsed (cfgConfig st) \<and>
    participating st \<noteq> [] \<longrightarrow>
      generateParams st =
        Some (Inr (map (overrides (nodeId st) (participating st))
                     (cartesianProduct (map snd (participating st)))))) \<and>
   generateParams (initialState\<lparr>seedConfig := \<lparr>enabled = True, values = js ''1-2''\<rparr>,
       stepsConfig := \<lparr>enabled = True, values = js ''10,20''\<rparr>\<rparr>) =
     Some (Inr
       [[\<lparr>node_id = js ''3'', field = ''seed'', value = Fin 1\<rparr>,
         \<lparr>node_id = js ''3'', field = ''steps'', value = Fin 10\<rparr>],
        [\<lparr>node_id = js ''3'', field = ''seed'', value = Fin 1\<rparr>,
         \<lparr>node_id = js ''3'', field = ''steps'', value = Fin 20\<rparr>],
        [\<lparr>node_id = js ''3'', field = ''seed'', value = Fin 2\<rparr>,
         \<lparr>node_id = js ''3'', field = ''steps'', value = Fin 10\<rparr>],
        [\<lparr>node_id = js ''3'', field = ''seed'', value = Fin 2\<rparr>,
         \<lparr>node_id = js ''3'', field = ''steps'', value = Fin 20\<rparr>]])"
proof (intro conjI impI)
  show "cartesianProduct ([] :: 'a list list) = [[]]" by (rule cartesianProduct_Nil)
  show "cartesianProduct (xs # xss) = concat (map (\<lambda>x. map ((#) x) (cartesianProduct xss)) xs)"
    by (rule cartesianProduct_Cons)
next
  assume "parsed (seedConfig st) \<and> parsed (stepsConfig st) \<and> parsed (cfgConfig st) \<and>
    participating st \<noteq> []"
  then show "generateParams st =
      Some (Inr (map (overrides (nodeId st) (participating st))
                   (cartesianProduct (map snd (participating st)))))"
    using generateParams_parsed [of st] by simp
next
  show "generateParams (initialState\<lparr>seedConfig := \<lparr>enabled = True, values = js ''1-2''\<rparr>,
       stepsConfig := \<lparr>enabled = True, values = js ''10,20''\<rparr>\<rparr>) =
     Some (Inr
       [[\<lparr>node_id = js ''3'', field = ''seed'', value = Fin 1\<rparr>,
         \<lparr>node_id = js ''3'', field = ''steps'', value = Fin 10\<rparr>],
        [\<lparr>node_id = js ''3'', field = ''seed'', value = Fin 1\<rparr>,
         \<lparr>node_id = js ''3'', field = ''steps'', value = Fin 20\<rparr>],
        [\<lparr>node_id = js ''3'', field = ''seed'', value = Fin 2\<rparr>,
         \<lparr>node_id = js ''3'', field = ''steps'', value = Fin 10\<rparr>],
        [\<lparr>node_id = js ''3'', field = ''seed'', value = Fin 2\<rparr>,
         \<lparr>node_id = js ''3'', field = ''steps'', value = Fin 20\<rparr>]])"
    by (simp add: component_eval string_eval number_eval parse_eval loop_eval)
qed

theorem expansion_order_witness:
  "parsed \<lparr>enabled = True, values = js ''1-2''\<rparr> \<and>
   parsed \<lparr>enabled = True, values = js ''20''\<rparr> \<and>
   parsed \<lparr>enabled = True, values = js ''8,7''\<rparr> \<and>
   generateParams
     (initialState\<lparr>seedConfig := \<lparr>enabled = True, values = js ''1-2''\<rparr>,
        stepsConfig := \<lparr>enabled = True, values = js ''20''\<rparr>,
        cfgConfig := \<lparr>enabled = True, values = js ''8,7''\<rparr>\<rparr>) =
     Some (Inr
       [[\<lparr>node_id = js ''3'', field = ''seed'', value = Fin 1\<rparr>,
         \<lparr>node_id = js ''3'', field = ''steps'', value = Fin 20\<rparr>,
         \<lparr>node_id = js ''3'', field = ''cfg'', value = Fin 8\<rparr>],
        [\<lparr>node_id = js ''3'', field = ''seed'', value = Fin 1\<rparr>,
         \<lparr>node_id = js ''3'', field = ''steps'', value = Fin 20\<rparr>,
         \<lparr>node_id = js ''3'', field = ''cfg'', value = Fin 7\<rparr>],
        [\<lparr>node_id = js ''3'', field = ''seed'', value = Fin 2\<rparr>,
         \<lparr>node_id = js ''3'', field = ''steps'', value = Fin 20\<rparr>,
         \<lparr>node_id = js ''3'', field = ''cfg'', value = Fin 8\<rparr>],
        [\<lparr>node_id = js ''3'', field = ''seed'', value = Fin 2\<rparr>,
         \<lparr>node_id = js ''3'', field = ''steps'', value = Fin 20\<rparr>,
         \<lparr>node_id = js ''3'', field = ''cfg'', value = Fin 7\<rparr>]])"
proof -
  define S where "S = initialState\<lparr>seedConfig := \<lparr>enabled = True, values = js ''1-2''\<rparr>,
        stepsConfig := \<lparr>enabled = True, values = js ''20''\<rparr>,
        cfgConfig := \<lparr>enabled = True, values = js ''8,7''\<rparr>\<rparr>"
  have c: "seedConfig S = \<lparr>enabled = True, values = js ''1-2''\<rparr>"
    "stepsConfig S = \<lparr>enabled = True, values = js ''20''\<rparr>"
    "cfgConfig S = \<lparr>enabled = True, values = js ''8,7''\<rparr>"
    "nodeId S = js ''3''"
    by (simp_all add: S_def initialState_def)
  have p: "parsed \<lparr>enabled = True, values = js ''1-2''\<rparr>"
    "parsed \<lparr>enabled = True, values = js ''20''\<rparr>"
    "parsed \<lparr>enabled = True, values = js ''8,7''\<rparr>"
    by (simp_all add: component_eval string_eval number_eval parse_eval loop_eval)
  have q: "participating S = [(''seed'', [Fin 1, Fin 2]), (''steps'', [Fin 20]), (''cfg'', [Fin 8, Fin 7])]"
    unfolding S_def by (simp add: component_eval string_eval number_eval parse_eval loop_eval)
  have "parsed (seedConfig S) \<and> parsed (stepsConfig S) \<and> parsed (cfgConfig S) \<and>
      participating S \<noteq> [] \<longrightarrow>
      generateParams S =
        Some (Inr (map (overrides (nodeId S) (participating S))
                     (cartesianProduct (map snd (participating S)))))"
    using expansion_order [where st = S and xs = "[] :: nat list" and xss = "[]"] by blast
  with p q
  have "generateParams S =
      Some (Inr (map (overrides (js ''3'') [(''seed'', [Fin 1, Fin 2]), (''steps'', [Fin 20]), (''cfg'', [Fin 8, Fin 7])])
                   (cartesianProduct [[Fin 1, Fin 2], [Fin 20], [Fin 8, Fin 7]])))"
    by (simp add: c)
  then show ?thesis using p unfolding S_def
    by (simp add: overrides_def cartesianProduct_def)
qed

subsection \<open>No participating dimension\<close>

text \<open>
  C5: when every dimension is disabled or parses to no value, the expansion is the empty
  list, not the list of one empty combination; and a dimension that parses to no value
  can be disabled without changing the expansion.
\<close>

theorem no_participating_dimension:
  "(excluded (seedConfig st) \<and> excluded (stepsConfig st) \<and> excluded (cfgConfig st) \<longrightarrow>
      generateParams st = Some (Inr []) \<and> generateParams st \<noteq> Some (Inr [[]])) \<and>
   (parseValues (values (seedConfig st)) = Some (Inr []) \<longrightarrow>
      generateParams st = generateParams (st\<lparr>seedConfig := (seedConfig st)\<lparr>enabled := False\<rparr>\<rparr>)) \<and>
   (parseValues (values (stepsConfig st)) = Some (Inr []) \<longrightarrow>
      generateParams st = generateParams (st\<lparr>stepsConfig := (stepsConfig st)\<lparr>enabled := False\<rparr>\<rparr>)) \<and>
   (parseValues (values (cfgConfig st)) = Some (Inr []) \<longrightarrow>
      generateParams st = generateParams (st\<lparr>cfgConfig := (cfgConfig st)\<lparr>enabled := False\<rparr>\<rparr>))"
proof (intro conjI impI)
  assume e: "excluded (seedConfig st) \<and> excluded (stepsConfig st) \<and> excluded (cfgConfig st)"
  then show g: "generateParams st = Some (Inr [])"
    by (simp add: generateParams_def pushParam_excluded)
  then show "generateParams st \<noteq> Some (Inr [[]])" by simp
next
  assume "parseValues (values (seedConfig st)) = Some (Inr [])"
  then show "generateParams st = generateParams (st\<lparr>seedConfig := (seedConfig st)\<lparr>enabled := False\<rparr>\<rparr>)"
    by (simp add: generateParams_def pushParam_no_values pushParam_disabled
        split: option.splits sum.splits)
next
  assume "parseValues (values (stepsConfig st)) = Some (Inr [])"
  then show "generateParams st = generateParams (st\<lparr>stepsConfig := (stepsConfig st)\<lparr>enabled := False\<rparr>\<rparr>)"
    by (simp add: generateParams_def pushParam_no_values pushParam_disabled
        split: option.splits sum.splits)
next
  assume "parseValues (values (cfgConfig st)) = Some (Inr [])"
  then show "generateParams st = generateParams (st\<lparr>cfgConfig := (cfgConfig st)\<lparr>enabled := False\<rparr>\<rparr>)"
    by (simp add: generateParams_def pushParam_no_values pushParam_disabled
        split: option.splits sum.splits)
qed

theorem no_participating_dimension_witness:
  "excluded \<lparr>enabled = True, values = js ''abc''\<rparr> \<and>
   excluded \<lparr>enabled = False, values = js ''20,30,40''\<rparr> \<and>
   excluded \<lparr>enabled = True, values = js ''5-1''\<rparr> \<and>
   parseValues (js ''abc'') = Some (Inr []) \<and>
   generateParams (initialState\<lparr>seedConfig := \<lparr>enabled = True, values = js ''abc''\<rparr>,
       cfgConfig := \<lparr>enabled = True, values = js ''5-1''\<rparr>\<rparr>) = Some (Inr []) \<and>
   generateParams (initialState\<lparr>seedConfig := \<lparr>enabled = True, values = js ''abc''\<rparr>,
       stepsConfig := \<lparr>enabled = True, values = js ''10,20''\<rparr>\<rparr>) =
   generateParams (initialState\<lparr>seedConfig := \<lparr>enabled = False, values = js ''abc''\<rparr>,
       stepsConfig := \<lparr>enabled = True, values = js ''10,20''\<rparr>\<rparr>)"
proof -
  define S where "S = initialState\<lparr>seedConfig := \<lparr>enabled = True, values = js ''abc''\<rparr>,
       cfgConfig := \<lparr>enabled = True, values = js ''5-1''\<rparr>\<rparr>"
  define T where "T = initialState\<lparr>seedConfig := \<lparr>enabled = True, values = js ''abc''\<rparr>,
       stepsConfig := \<lparr>enabled = True, values = js ''10,20''\<rparr>\<rparr>"
  have e: "excluded \<lparr>enabled = True, values = js ''abc''\<rparr>"
    "excluded \<lparr>enabled = False, values = js ''20,30,40''\<rparr>"
    "excluded \<lparr>enabled = True, values = js ''5-1''\<rparr>"
    by (simp_all add: excluded_def string_eval number_eval parse_eval loop_eval)
  have p: "parseValues (js ''abc'') = Some (Inr [])"
    by (simp add: string_eval number_eval parse_eval)
  have "generateParams S = Some (Inr [])"
    using no_participating_dimension [of S] e by (simp add: S_def initialState_def)
  moreover have "generateParams T = generateParams (T\<lparr>seedConfig := (seedConfig T)\<lparr>enabled := False\<rparr>\<rparr>)"
    using no_participating_dimension [of T] p by (simp add: T_def initialState_def)
  ultimately show ?thesis using e p by (simp add: S_def T_def initialState_def)
qed

section \<open>Submitting\<close>

text \<open>
  C6: when the expansion is empty, \<open>handleSubmit\<close> sets an error message and calls
  \<open>createTask\<close> not at all; whenever it does call \<open>createTask\<close>, the parameters sent
  are the expansion, and it is not empty.
\<close>

theorem empty_expansion_rejected:
  "(generateParams st = Some (Inr []) \<longrightarrow>
      handleSubmit env st =
        Some (Inr (st\<lparr>error := Some (if trim (name st) = [] then EnterTaskName else NoValidParams)\<rparr>,
                   []))) \<and>
   (handleSubmit env st = Some (Inr (st', calls)) \<longrightarrow>
      (\<forall>call \<in> set calls. generateParams st = Some (Inr (task_params call)) \<and> task_params call \<noteq> []))"
proof (intro conjI impI)
  assume "generateParams st = Some (Inr [])"
  then show "handleSubmit env st =
      Some (Inr (st\<lparr>error := Some (if trim (name st) = [] then EnterTaskName else NoValidParams)\<rparr>, []))"
    by (simp add: handleSubmit_def)
next
  assume "handleSubmit env st = Some (Inr (st', calls))"
  then show "\<forall>call \<in> set calls. generateParams st = Some (Inr (task_params call)) \<and> task_params call \<noteq> []"
    by (auto simp: handleSubmit_def Let_def
        split: if_splits option.splits sum.splits awaited.splits thrown.splits)
qed

theorem empty_expansion_rejected_witness:
  "generateParams (initialState\<lparr>name := js ''batch'', seedConfig := \<lparr>enabled = False, values = js ''1-5''\<rparr>\<rparr>)
     = Some (Inr []) \<and>
   handleSubmit \<lparr>comfyApp = Some \<lparr>graph = True, graphToPrompt = Resolved (Some [(js ''3'', js ''{}'')])\<rparr>,
                 createTaskResult = Resolved \<lparr>success = True, response_error = None\<rparr>\<rparr>
     (initialState\<lparr>name := js ''batch'', seedConfig := \<lparr>enabled = False, values = js ''1-5''\<rparr>\<rparr>) =
     Some (Inr (initialState\<lparr>name := js ''batch'',
                  seedConfig := \<lparr>enabled = False, values = js ''1-5''\<rparr>,
                  error := Some NoValidParams\<rparr>, []))"
proof -
  define S where "S = initialState\<lparr>name := js ''batch'', seedConfig := \<lparr>enabled = False, values = js ''1-5''\<rparr>\<rparr>"
  have g: "generateParams S = Some (Inr [])"
    by (simp add: S_def component_eval)
  have n: "trim (name S) \<noteq> []"
    by (simp add: S_def initialState_def string_eval)
  from empty_expansion_rejected [of S] g n
  have "handleSubmit env S = Some (Inr (S\<lparr>error := Some NoValidParams\<rparr>, []))" for env
    by simp
  with g show ?thesis by (simp add: S_def initialState_def)
qed

text \<open>With a name, one enabled dimension and a workflow, the task is created.\<close>

lemma handleSubmit_creates:
  "handleSubmit \<lparr>comfyApp = Some \<lparr>graph = True, graphToPrompt = Resolved (Some [(js ''3'', js ''{}'')])\<rparr>,
                 createTaskResult = Resolved \<lparr>success = True, response_error = None\<rparr>\<rparr>
     (initialState\<lparr>name := js '' batch '', seedConfig := \<lparr>enabled = True, values = js ''4''\<rparr>\<rparr>) =
   Some (Inr (initialState\<lparr>name := [], seedConfig := \<lparr>enabled = True, values = js ''4''\<rparr>\<rparr>,
     [\<lparr>task_name = js ''batch'', task_workflow = [(js ''3'', js ''{}'')],
       task_params = [[\<lparr>node_id = js ''3'', field = ''seed'', value = Fin 4\<rparr>]]\<rparr>]))"
  by (simp add: handleSubmit_def getWorkflow_def component_eval string_eval number_eval parse_eval)

section \<open>The scheduler of the specification\<close>

lemma paired_append: "paired xs \<Longrightarrow> paired ys \<Longrightarrow> paired (xs @ ys)"
  by (induction xs rule: paired.induct) auto

lemma paired_runCombinations: "paired (fst (runCombinations engine t k cs s))"
  by (induction cs arbitrary: k s) (simp_all add: split_beta split: signal.splits)

lemma paired_cycle: "paired (fst (cycle engine s))"
  by (auto simp: cycle_def paired_runCombinations split: option.splits)

lemma paired_worker: "paired (fst (worker engine apis s))"
proof (induction apis arbitrary: s)
  case Nil
  show ?case by simp
next
  case (Cons api apis)
  show ?case
    using paired_cycle [of engine "api s"] Cons [of "snd (cycle engine (api s))"]
    by (auto simp: split_beta Let_def intro: paired_append)
qed

lemma paired_prefix_outstanding: "paired es \<Longrightarrow> prefix p es \<Longrightarrow> outstanding 0 p \<le> 1"
proof (induction es arbitrary: p rule: paired.induct)
  case 1
  then show ?case by simp
next
  case (2 i k j l r es)
  show ?case
  proof (cases p)
    case Nil
    then show ?thesis by simp
  next
    case (Cons a q)
    with 2 have a: "a = Submitted i k" and q: "prefix q (Signalled j l r # es)" by auto
    show ?thesis
    proof (cases q)
      case Nil
      with Cons a show ?thesis by simp
    next
      case c2: (Cons b q')
      with q have "b = Signalled j l r" "prefix q' es" by auto
      with 2 Cons a c2 show ?thesis by simp
    qed
  qed
qed auto

text \<open>
  C4: at any instant at most one submission is outstanding against the Execution Engine
  Adapter: after every initial part of the events of the worker, over any number of
  cycles, any engine and any changes of the store between cycles, at most one
  submission has no signal yet.
\<close>

theorem at_most_one_in_flight:
  "prefix p (fst (worker engine apis s)) \<Longrightarrow> outstanding 0 p \<le> 1"
  using paired_worker by (rule paired_prefix_outstanding)

theorem at_most_one_in_flight_witness:
  "prefix [Submitted 1 0, Signalled 1 0 Success, Submitted 1 1]
     (fst (worker (\<lambda>j. Success) [\<lambda>s. s]
        [\<lparr>t_id = 1, t_name = js ''batch'', t_status = Pending, t_template = [],
          t_combinations = [[\<lparr>node_id = js ''3'', field = ''seed'', value = Fin 1\<rparr>],
                            [\<lparr>node_id = js ''3'', field = ''seed'', value = Fin 2\<rparr>]],
          t_total_count = 2, t_completed_count = 0\<rparr>])) \<and>
   outstanding 0 [Submitted 1 0, Signalled 1 0 Success, Submitted 1 1] \<le> 1"
proof -
  have p: "prefix [Submitted 1 0, Signalled 1 0 Success, Submitted 1 1]
     (fst (worker (\<lambda>j. Success) [\<lambda>s. s]
        [\<lparr>t_id = 1, t_name = js ''batch'', t_status = Pending, t_template = [],
          t_combinations = [[\<lparr>node_id = js ''3'', field = ''seed'', value = Fin 1\<rparr>],
                            [\<lparr>node_id = js ''3'', field = ''seed'', value = Fin 2\<rparr>]],
          t_total_count = 2, t_completed_count = 0\<rparr>]))"
    by (simp add: cycle_def)
  from at_most_one_in_flight [OF p] p show ?thesis by blast
qed

end
